theory Spec2Isabelle
  imports Main
begin

section \<open>Data model\<close>

text \<open>
  The program keeps a relation between cities in a dynamically allocated array of
  \<^verbatim>\<open>int\<close>: the pair number \<open>k\<close> occupies the cells \<open>2k\<close> (start city) and \<open>2k+1\<close>
  (target city), and \<^verbatim>\<open>sizeOfR\<close> is twice the number of pairs. The model keeps the array as the
  list of its pairs; a loop \<^verbatim>\<open>for(i = 0; i < size; i += 2)\<close> runs over the pair indices
  \<open>0, \<dots>, length R - 1\<close>, \<^verbatim>\<open>R[i]\<close> is \<open>fst (R ! k)\<close> and \<^verbatim>\<open>R[i+1]\<close> is \<open>snd (R ! k)\<close>.
  The size is even whenever the functions below run (\<^verbatim>\<open>createRList\<close> writes two cells for
  a pair, \<^verbatim>\<open>createTransClosure\<close> appends two), so no cell is left over.
  Cities are C \<^verbatim>\<open>int\<close>s that are only copied and compared. Sizes and indices are
  natural numbers: they count cells of arrays that are in memory.

  \<^verbatim>\<open>malloc\<close> and \<^verbatim>\<open>realloc\<close> can return \<^verbatim>\<open>NULL\<close>. Every function of the model takes
  the allocator as a parameter \<open>mem\<close>: \<open>mem n\<close> tells whether a request for a block of
  \<open>n\<close> ints is granted.
\<close>

type_synonym city = int
type_synonym pair = "city \<times> city"

text \<open>The cells of the C array that the list of pairs stands for.\<close>

definition cells :: "pair list \<Rightarrow> int list" where
  "cells R = concat (map (\<lambda>p. [fst p, snd p]) R)"

text \<open>
  The ways a function gives up: an allocation that returns \<^verbatim>\<open>NULL\<close>, a write past the end
  of an allocated block (undefined behaviour in C, kept as a failure of its own), and
  \<^verbatim>\<open>findPath\<close>'s answer "No Path Exists!".
\<close>

datatype error = AllocFailed | OutOfBounds | NoPath

text \<open>The allocator that grants every request.\<close>

definition unlimited :: "nat \<Rightarrow> bool" where
  "unlimited n = True"

text \<open>
  A \<^verbatim>\<open>for\<close> loop over the indices \<open>is\<close> whose body can leave the function
  (\<^verbatim>\<open>return NULL\<close>): the first failure ends the loop.
\<close>

fun for_loop :: "(nat \<Rightarrow> 's \<Rightarrow> error + 's) \<Rightarrow> nat list \<Rightarrow> 's \<Rightarrow> error + 's" where
  "for_loop body [] s = Inr s"
| "for_loop body (i # is) s =
     (case body i s of Inl e \<Rightarrow> Inl e | Inr s' \<Rightarrow> for_loop body is s')"

section \<open>createTransClosure\<close>

text \<open>
  The innermost loop: \<^verbatim>\<open>for(k = 0; k < *sizeOfR; k+=2) if(R[k] == u && R[k+1] == w)
  alreadyExists = true;\<close>. It scans the whole current array and never leaves early.
  The first loop of \<^verbatim>\<open>findPath\<close> is the same scan, for the flag \<^verbatim>\<open>found\<close>.
\<close>

definition scanPair :: "pair list \<Rightarrow> city \<Rightarrow> city \<Rightarrow> bool" where
  "scanPair R u w =
     fold (\<lambda>k flag. if fst (R ! k) = u \<and> snd (R ! k) = w then True else flag)
       [0..<length R] False"

text \<open>
  The body of the loop over \<open>j\<close>, for the pair \<open>(u, v)\<close> read at the head of the loop
  over \<open>i\<close>. The state is the array and the flag \<^verbatim>\<open>changed\<close>.
\<close>

definition composeStep ::
  "(nat \<Rightarrow> bool) \<Rightarrow> city \<Rightarrow> city \<Rightarrow> nat \<Rightarrow> pair list \<times> bool \<Rightarrow> error + pair list \<times> bool" where
  "composeStep mem u v j st =
     (case st of (R, changed) \<Rightarrow>
        let y = fst (R ! j); w = snd (R ! j) in
        if y = v \<and> u \<noteq> w then
          let alreadyExists = (if u \<noteq> y \<and> v \<noteq> w then scanPair R u w else False) in
          if \<not> alreadyExists then
            if mem (2 * length R + 2) then Inr (R @ [(u, w)], True) else Inl AllocFailed
          else Inr (R, changed)
        else Inr (R, changed))"

text \<open>The body of the loop over \<open>i\<close>: read \<open>(u, v)\<close>, then run the loop over \<open>j\<close>.\<close>

definition composeRow ::
  "(nat \<Rightarrow> bool) \<Rightarrow> nat \<Rightarrow> nat \<Rightarrow> pair list \<times> bool \<Rightarrow> error + pair list \<times> bool" where
  "composeRow mem initialSize i st =
     (let u = fst (fst st ! i); v = snd (fst st ! i) in
      for_loop (composeStep mem u v) [0..<initialSize] st)"

text \<open>
  One run of the body of \<^verbatim>\<open>while(changed)\<close>: \<^verbatim>\<open>changed = false\<close>, the size is saved in
  \<^verbatim>\<open>initialSize\<close>, and both loops run below it.
\<close>

definition closurePass :: "(nat \<Rightarrow> bool) \<Rightarrow> pair list \<Rightarrow> error + pair list \<times> bool" where
  "closurePass mem R =
     (let initialSize = length R in
      for_loop (composeRow mem initialSize) [0..<initialSize] (R, False))"

text \<open>
  \<^verbatim>\<open>changed\<close> starts as true, so the body runs at least once; the loop may run for ever,
  which is the value \<open>None\<close>.
\<close>

partial_function (option) createTransClosure ::
  "(nat \<Rightarrow> bool) \<Rightarrow> pair list \<Rightarrow> (error + pair list) option" where
  "createTransClosure mem R =
     (case closurePass mem R of
        Inl e \<Rightarrow> Some (Inl e)
      | Inr (R', changed) \<Rightarrow> if changed then createTransClosure mem R' else Some (Inr R'))"

declare createTransClosure.simps [code]

section \<open>createRList\<close>

text \<open>
  The neighbour table is an array of \<open>N\<close> rows of \<open>N\<close> ints. The list is written through
  the pointer \<^verbatim>\<open>p\<close> into a block of \<^verbatim>\<open>2*(N*N-N)\<close> ints, two cells for every entry equal
  to 1, in the order of the two loops; the block is then cut to the cells written.
  The state of the loops is the list of pairs written so far (\<^verbatim>\<open>neihbourCount\<close> is its
  length, \<^verbatim>\<open>p\<close> points \<open>2 * length\<close> cells into the block).
\<close>

definition writePair :: "int list list \<Rightarrow> nat \<Rightarrow> nat \<Rightarrow> nat \<Rightarrow> pair list \<Rightarrow> error + pair list" where
  "writePair A capacity i j written =
     (if A ! i ! j = 1 then
        if 2 * length written + 1 < capacity then Inr (written @ [(int i, int j)])
        else Inl OutOfBounds
      else Inr written)"

definition createRList :: "(nat \<Rightarrow> bool) \<Rightarrow> int list list \<Rightarrow> nat \<Rightarrow> error + pair list" where
  "createRList mem A N =
     (let capacity = 2 * (N * N - N) in
      if \<not> mem capacity then Inl AllocFailed
      else
        case for_loop (\<lambda>i. for_loop (writePair A capacity i) [0..<N]) [0..<N] [] of
          Inl e \<Rightarrow> Inl e
        | Inr RList \<Rightarrow>
            let sizeOfR = 2 * length RList in
            if \<not> mem sizeOfR then Inl AllocFailed else Inr RList)"

section \<open>findPath\<close>

text \<open>
  The state of the walk: the array \<^verbatim>\<open>Path\<close> (\<^verbatim>\<open>pathSize\<close> is its length), the variable
  \<^verbatim>\<open>startCity\<close>, which the function overwrites with the city it stands on, and the flag
  \<^verbatim>\<open>pathComplete\<close>.
\<close>

record walk =
  Path :: "city list"
  startCity :: city
  pathComplete :: bool

text \<open>
  \<^verbatim>\<open>for(j = 0; j < pathSize; j++) if(R[i+1]==Path[j]) nextTargetAlreadyInPath = true;\<close>
\<close>

definition scanPath :: "city list \<Rightarrow> city \<Rightarrow> bool" where
  "scanPath P c =
     fold (\<lambda>j nextTargetAlreadyInPath. if c = P ! j then True else nextTargetAlreadyInPath)
       [0..<length P] False"

text \<open>
  The second loop of \<^verbatim>\<open>findPath\<close> stops at the first pair that starts at \<^verbatim>\<open>startCity\<close>
  (both branches end in \<^verbatim>\<open>break\<close>): it allocates the path, stores the start city and
  steps to the pair's target. When no pair starts there the loop changes nothing.
\<close>

definition firstHop :: "(nat \<Rightarrow> bool) \<Rightarrow> pair list \<Rightarrow> city \<Rightarrow> city \<Rightarrow> error + walk" where
  "firstHop mem R start targetCity =
     (case List.find (\<lambda>i. fst (R ! i) = start) [0..<length R] of
        None \<Rightarrow> Inr \<lparr>Path = [], startCity = start, pathComplete = False\<rparr>
      | Some i \<Rightarrow>
          if \<not> mem 1 then Inl AllocFailed
          else
            let P = [start]; c = snd (R ! i) in
            if c = targetCity then
              if \<not> mem (length P + 1) then Inl AllocFailed
              else Inr \<lparr>Path = P @ [targetCity], startCity = c, pathComplete = True\<rparr>
            else Inr \<lparr>Path = P, startCity = c, pathComplete = False\<rparr>)"

text \<open>
  The body of the \<^verbatim>\<open>for\<close> loop inside \<^verbatim>\<open>while(!pathComplete)\<close>. The visited check
  compares the pair's target with the cells of \<^verbatim>\<open>Path\<close>; the city the walk stands on is
  stored in \<^verbatim>\<open>Path\<close> only when the walk leaves it.
\<close>

definition hopStep :: "(nat \<Rightarrow> bool) \<Rightarrow> pair list \<Rightarrow> city \<Rightarrow> nat \<Rightarrow> walk \<Rightarrow> error + walk" where
  "hopStep mem R targetCity i s =
     (if fst (R ! i) = startCity s then
        if \<not> scanPath (Path s) (snd (R ! i)) then
          if \<not> mem (length (Path s) + 1) then Inl AllocFailed
          else
            let P = Path s @ [startCity s]; c = snd (R ! i) in
            if c = targetCity then
              if \<not> mem (length P + 1) then Inl AllocFailed
              else Inr \<lparr>Path = P @ [targetCity], startCity = c, pathComplete = True\<rparr>
            else Inr \<lparr>Path = P, startCity = c, pathComplete = False\<rparr>
        else Inr s
      else Inr s)"

text \<open>
  One run of the \<^verbatim>\<open>for\<close> loop: the \<^verbatim>\<open>break\<close> that follows \<^verbatim>\<open>pathComplete = true\<close>
  skips the rest of the indices. The scan goes on from the next index after a hop; it
  does not start again at the first pair.
\<close>

definition hopScan :: "(nat \<Rightarrow> bool) \<Rightarrow> pair list \<Rightarrow> city \<Rightarrow> walk \<Rightarrow> error + walk" where
  "hopScan mem R targetCity s =
     for_loop (\<lambda>i s. if pathComplete s then Inr s else hopStep mem R targetCity i s)
       [0..<length R] s"

text \<open>\<^verbatim>\<open>while(!pathComplete)\<close>: nothing bounds the number of runs.\<close>

partial_function (option) walkLoop ::
  "(nat \<Rightarrow> bool) \<Rightarrow> pair list \<Rightarrow> city \<Rightarrow> walk \<Rightarrow> (error + city list) option" where
  "walkLoop mem R targetCity s =
     (if pathComplete s then Some (Inr (Path s))
      else
        case hopScan mem R targetCity s of
          Inl e \<Rightarrow> Some (Inl e)
        | Inr s' \<Rightarrow> walkLoop mem R targetCity s')"

declare walkLoop.simps [code]

text \<open>
  The result is the failure (the C function returns \<^verbatim>\<open>false\<close>) or the path that the
  function prints before it returns \<^verbatim>\<open>true\<close>. \<open>start\<close> is the parameter \<^verbatim>\<open>startCity\<close> as
  the caller passes it.
\<close>

definition findPath ::
  "(nat \<Rightarrow> bool) \<Rightarrow> pair list \<Rightarrow> city \<Rightarrow> city \<Rightarrow> (error + city list) option" where
  "findPath mem R start targetCity =
     (if \<not> scanPair R start targetCity then Some (Inl NoPath)
      else
        case firstHop mem R start targetCity of
          Inl e \<Rightarrow> Some (Inl e)
        | Inr s \<Rightarrow> walkLoop mem R targetCity s)"

section \<open>Predicates used in the statements\<close>

text \<open>
  \<open>grows R R'\<close>: the array \<open>R'\<close> is \<open>R\<close> followed by appended pairs, none of which links a
  city to itself.
\<close>

definition grows :: "pair list \<Rightarrow> pair list \<Rightarrow> bool" where
  "grows R R' \<longleftrightarrow> (\<exists>X. R' = R @ X \<and> (\<forall>p \<in> set X. fst p \<noteq> snd p))"

text \<open>
  \<open>unscanned (u, v) (y, w)\<close>: the two pairs pass the test \<^verbatim>\<open>y == v && u != w\<close> and fail the
  test \<^verbatim>\<open>u != y && v != w\<close> that stands before the duplicate scan, so \<open>(u, w)\<close> is
  appended without a look at the array. \<open>all_scanned R\<close>: no two pairs of \<open>R\<close> do that.
\<close>

definition unscanned :: "pair \<Rightarrow> pair \<Rightarrow> bool" where
  "unscanned p q \<longleftrightarrow> fst q = snd p \<and> fst p \<noteq> snd q \<and> \<not> (fst p \<noteq> fst q \<and> snd p \<noteq> snd q)"

definition all_scanned :: "pair list \<Rightarrow> bool" where
  "all_scanned R \<longleftrightarrow> (\<forall>p \<in> set R. \<forall>q \<in> set R. \<not> unscanned p q)"

text \<open>
  The pass that starts on \<open>R\<close>, cut at the step with the indices \<open>i\<close> and \<open>j\<close>.
  \<open>passBefore\<close>: the rows below \<open>i\<close> and, in row \<open>i\<close>, the steps below \<open>j\<close>; its result is
  the array and the flag that the step meets. \<open>passAfter\<close>: the rest of row \<open>i\<close>, whose
  pair is \<open>(u, v)\<close>, and the rows above \<open>i\<close>, from the array and the flag that the step
  leaves.
\<close>

definition passBefore ::
  "(nat \<Rightarrow> bool) \<Rightarrow> pair list \<Rightarrow> nat \<Rightarrow> nat \<Rightarrow> error + pair list \<times> bool" where
  "passBefore mem R i j =
     (case for_loop (composeRow mem (length R)) [0..<i] (R, False) of
        Inl e \<Rightarrow> Inl e
      | Inr st \<Rightarrow> for_loop (composeStep mem (fst (fst st ! i)) (snd (fst st ! i))) [0..<j] st)"

definition passAfter ::
  "(nat \<Rightarrow> bool) \<Rightarrow> nat \<Rightarrow> nat \<Rightarrow> nat \<Rightarrow> city \<Rightarrow> city \<Rightarrow> pair list \<times> bool \<Rightarrow>
   error + pair list \<times> bool" where
  "passAfter mem initialSize i j u v st =
     (case for_loop (composeStep mem u v) [Suc j..<initialSize] st of
        Inl e \<Rightarrow> Inl e
      | Inr st' \<Rightarrow> for_loop (composeRow mem initialSize) [Suc i..<initialSize] st')"

text \<open>
  For \<open>findPath\<close>. \<open>link R a b\<close>: the pair \<open>(a, b)\<close> is in the array. \<open>path_ok\<close>: what a
  finished path satisfies. \<open>walk_inv\<close>: what holds of the walk between two steps, where
  the city the walk stands on is not yet stored in \<open>Path\<close>. Every array that
  \<open>createTransClosure\<close> returns is \<open>all_scanned\<close>: a pair \<open>(a, a)\<close> in it has no other pair that
  starts or ends at \<open>a\<close>.
\<close>

definition link :: "pair list \<Rightarrow> city \<Rightarrow> city \<Rightarrow> bool" where
  "link R a b \<longleftrightarrow> (a, b) \<in> set R"

definition no_self_pair :: "pair list \<Rightarrow> bool" where
  "no_self_pair R \<longleftrightarrow> (\<forall>p \<in> set R. fst p \<noteq> snd p)"

definition path_ok :: "pair list \<Rightarrow> city \<Rightarrow> city \<Rightarrow> city list \<Rightarrow> bool" where
  "path_ok R start targetCity p \<longleftrightarrow>
     p \<noteq> [] \<and> hd p = start \<and> last p = targetCity \<and> successively (link R) p \<and>
     (all_scanned R \<and> start \<noteq> targetCity \<longrightarrow> distinct p)"

definition walk_inv :: "pair list \<Rightarrow> city \<Rightarrow> city \<Rightarrow> walk \<Rightarrow> bool" where
  "walk_inv R start targetCity s \<longleftrightarrow>
     (if pathComplete s then path_ok R start targetCity (Path s)
      else Path s \<noteq> [] \<and> hd (Path s) = start \<and>
           successively (link R) (Path s @ [startCity s]) \<and>
           (all_scanned R \<and> start \<noteq> targetCity \<longrightarrow> distinct (Path s @ [startCity s])))"

text \<open>
  For \<open>createRList\<close>. \<open>tablePairs A N\<close>: the pairs \<open>(i, j)\<close> with \<open>A[i][j] == 1\<close>, row by
  row and within a row by column.
\<close>

definition rowPairs :: "int list list \<Rightarrow> nat \<Rightarrow> nat \<Rightarrow> pair list" where
  "rowPairs A N i = map (\<lambda>j. (int i, int j)) (filter (\<lambda>j. A ! i ! j = 1) [0..<N])"

definition tablePairs :: "int list list \<Rightarrow> nat \<Rightarrow> pair list" where
  "tablePairs A N = concat (map (rowPairs A N) [0..<N])"

section \<open>The array and its list of pairs\<close>

lemma length_cells: "length (cells R) = 2 * length R"
  by (induction R) (simp_all add: cells_def)

lemma cells_nth:
  "k < length R \<Longrightarrow> cells R ! (2 * k) = fst (R ! k) \<and> cells R ! (2 * k + 1) = snd (R ! k)"
proof (induction R arbitrary: k)
  case Nil
  then show ?case by simp
next
  case (Cons p R)
  show ?case
  proof (cases k)
    case 0
    then show ?thesis by (simp add: cells_def)
  next
    case (Suc m)
    with Cons.prems have "m < length R" by simp
    from Cons.IH [OF this] Suc show ?thesis by (simp add: cells_def)
  qed
qed

section \<open>Loops\<close>

lemma for_loop_invariant:
  assumes "for_loop body ks s = Inr s'" and "I s"
    and "\<And>k t t'. k \<in> set ks \<Longrightarrow> I t \<Longrightarrow> body k t = Inr t' \<Longrightarrow> I t'"
  shows "I s'"
  using assms
proof (induction ks arbitrary: s)
  case Nil
  then show ?case by simp
next
  case (Cons k ks)
  from Cons.prems(1) obtain s1 where s1: "body k s = Inr s1" "for_loop body ks s1 = Inr s'"
    by (auto split: sum.splits)
  have "I s1"
    using Cons.prems(3) [of k s s1] Cons.prems(2) s1(1) by simp
  moreover have "I t'" if "j \<in> set ks" "I t" "body j t = Inr t'" for j t t'
    using Cons.prems(3) [of j t t'] that by simp
  ultimately show ?case
    using Cons.IH [OF s1(2)] by blast
qed

lemma for_loop_reaches:
  assumes "for_loop body ks s = Inr s'" and "k0 \<in> set ks" and "I s"
    and inv: "\<And>k t t'. k \<in> set ks \<Longrightarrow> I t \<Longrightarrow> body k t = Inr t' \<Longrightarrow> I t'"
    and hit: "\<And>t t'. I t \<Longrightarrow> body k0 t = Inr t' \<Longrightarrow> Q t'"
    and keep: "\<And>k t t'. k \<in> set ks \<Longrightarrow> I t \<Longrightarrow> Q t \<Longrightarrow> body k t = Inr t' \<Longrightarrow> Q t'"
  shows "Q s'"
  using assms(1-3) inv keep
proof (induction ks arbitrary: s)
  case Nil
  then show ?case by simp
next
  case (Cons k ks)
  from Cons.prems(1) obtain s1 where s1: "body k s = Inr s1" "for_loop body ks s1 = Inr s'"
    by (auto split: sum.splits)
  have I1: "I s1"
    using Cons.prems(4) [of k s s1] Cons.prems(3) s1(1) by simp
  have inv': "I t'" if "j \<in> set ks" "I t" "body j t = Inr t'" for j t t'
    using Cons.prems(4) [of j t t'] that by simp
  have keep': "Q t'" if "j \<in> set ks" "I t" "Q t" "body j t = Inr t'" for j t t'
    using Cons.prems(5) [of j t t'] that by simp
  show ?case
  proof (cases "k = k0")
    case True
    with hit [OF Cons.prems(3)] s1(1) have "Q s1" by simp
    with I1 have "I s1 \<and> Q s1" by simp
    then have "I s' \<and> Q s'"
      by (rule for_loop_invariant [OF s1(2), where I = "\<lambda>t. I t \<and> Q t"])
        (use inv' keep' in blast)
    then show ?thesis by simp
  next
    case False
    with Cons.prems(2) have "k0 \<in> set ks" by simp
    from Cons.IH [OF s1(2) this I1] inv' keep' show ?thesis by blast
  qed
qed

lemma for_loop_quiet:
  assumes "for_loop body ks s = Inr s'" and "quiet s'"
    and same: "\<And>k t t'. body k t = Inr t' \<Longrightarrow> quiet t' \<Longrightarrow> t' = t"
  shows "s' = s \<and> (\<forall>k \<in> set ks. body k s = Inr s)"
  using assms(1,2)
proof (induction ks arbitrary: s)
  case Nil
  then show ?case by simp
next
  case (Cons k ks)
  from Cons.prems(1) obtain s1 where s1: "body k s = Inr s1" "for_loop body ks s1 = Inr s'"
    by (auto split: sum.splits)
  from Cons.IH [OF s1(2) Cons.prems(2)]
  have rest: "s' = s1" "\<forall>j \<in> set ks. body j s1 = Inr s1" by simp_all
  with Cons.prems(2) have "quiet s1" by simp
  with same [OF s1(1)] have "s1 = s" by simp
  with rest s1(1) show ?case by simp
qed

lemma for_loop_failure:
  "for_loop body ks s = Inl e \<Longrightarrow> \<exists>k \<in> set ks. \<exists>t. body k t = Inl e"
  by (induction ks arbitrary: s) (auto split: sum.splits)

section \<open>One pass of the closure\<close>

lemma scan_fold:
  "n \<le> length R \<Longrightarrow>
   fold (\<lambda>k alreadyExists. if fst (R ! k) = u \<and> snd (R ! k) = w then True else alreadyExists)
     [0..<n] b = (b \<or> (\<exists>k<n. R ! k = (u, w)))"
proof (induction n)
  case 0
  then show ?case by simp
next
  case (Suc n)
  then show ?case
    by (auto simp: less_Suc_eq prod_eq_iff)
qed

lemma scanPair_iff: "scanPair R u w \<longleftrightarrow> (u, w) \<in> set R"
  by (simp add: scanPair_def scan_fold in_set_conv_nth)

lemma grows_refl: "grows R R"
  by (simp add: grows_def)

lemma grows_trans: "grows R R' \<Longrightarrow> grows R' R'' \<Longrightarrow> grows R R''"
  by (auto simp: grows_def)

lemma grows_nth: "grows R R' \<Longrightarrow> k < length R \<Longrightarrow> R' ! k = R ! k"
  by (auto simp: grows_def nth_append)

lemma grows_length: "grows R R' \<Longrightarrow> length R \<le> length R'"
  by (auto simp: grows_def)

lemma grows_set: "grows R R' \<Longrightarrow> set R \<subseteq> set R'"
  by (auto simp: grows_def)

lemma composeStep_cases:
  assumes "composeStep mem u v j (R, changed) = Inr (R', changed')"
  shows "(R' = R \<and> changed' = changed) \<or>
         (R' = R @ [(u, snd (R ! j))] \<and> changed' \<and> u \<noteq> snd (R ! j) \<and> fst (R ! j) = v)"
  using assms by (auto simp: composeStep_def Let_def split: if_splits)

lemma composeStep_grows:
  "composeStep mem u v j (R, changed) = Inr (R', changed') \<Longrightarrow> grows R R'"
  by (drule composeStep_cases) (auto simp: grows_def)

lemma composeRow_grows:
  assumes "composeRow mem n i (R, changed) = Inr (R', changed')"
  shows "grows R R'"
proof -
  let ?u = "fst (R ! i)" and ?v = "snd (R ! i)"
  from assms have run: "for_loop (composeStep mem ?u ?v) [0..<n] (R, changed) = Inr (R', changed')"
    by (simp add: composeRow_def)
  have "grows R (fst (R', changed'))"
    by (rule for_loop_invariant [OF run, where I = "\<lambda>st. grows R (fst st)"])
      (auto simp: grows_refl dest!: composeStep_grows intro: grows_trans)
  then show ?thesis by simp
qed

lemma closurePass_grows:
  assumes "closurePass mem R = Inr (R', changed')"
  shows "grows R R'"
proof -
  from assms have run:
    "for_loop (composeRow mem (length R)) [0..<length R] (R, False) = Inr (R', changed')"
    by (simp add: closurePass_def Let_def)
  have "grows R (fst (R', changed'))"
    by (rule for_loop_invariant [OF run, where I = "\<lambda>st. grows R (fst st)"])
      (auto simp: grows_refl dest!: composeRow_grows intro: grows_trans)
  then show ?thesis by simp
qed

lemma composeStep_flag:
  "composeStep mem u v j (R, True) = Inr (R', changed') \<Longrightarrow> changed'"
  by (drule composeStep_cases) auto

lemma composeStep_unscanned:
  "composeStep mem u v j (R, changed) = Inr (R', changed') \<Longrightarrow> unscanned (u, v) (R ! j) \<Longrightarrow>
   changed'"
  by (auto simp: composeStep_def unscanned_def Let_def split: if_splits)

lemma composeStep_distinct:
  "composeStep mem u v j (R, changed) = Inr (R', changed') \<Longrightarrow> \<not> unscanned (u, v) (R ! j) \<Longrightarrow>
   distinct R \<Longrightarrow> distinct R'"
  by (auto simp: composeStep_def unscanned_def scanPair_iff Let_def split: if_splits)

lemma composeStep_quiet:
  "composeStep mem u v j (R, changed) = Inr (R', False) \<Longrightarrow> R' = R \<and> \<not> changed"
  by (drule composeStep_cases) auto

lemma composeStep_closed:
  "composeStep mem u v j (R, False) = Inr (R, False) \<Longrightarrow> fst (R ! j) = v \<Longrightarrow>
   u \<noteq> snd (R ! j) \<Longrightarrow> (u, snd (R ! j)) \<in> set R"
  by (auto simp: composeStep_def scanPair_iff Let_def split: if_splits)

lemma composeRow_flag:
  assumes "composeRow mem n i (R, True) = Inr (R', changed')"
  shows "changed'"
proof -
  from assms have run:
    "for_loop (composeStep mem (fst (R ! i)) (snd (R ! i))) [0..<n] (R, True) = Inr (R', changed')"
    by (simp add: composeRow_def)
  have "snd (R', changed')"
    by (rule for_loop_invariant [OF run, where I = snd]) (auto dest: composeStep_flag)
  then show ?thesis by simp
qed

lemma composeRow_unscanned:
  assumes run: "composeRow mem n i (R, changed) = Inr (R', changed')"
    and j: "j < n" "j < length R" and u: "unscanned (R ! i) (R ! j)"
  shows "changed'"
proof -
  let ?u = "fst (R ! i)" and ?v = "snd (R ! i)"
  from run have loop:
    "for_loop (composeStep mem ?u ?v) [0..<n] (R, changed) = Inr (R', changed')"
    by (simp add: composeRow_def)
  have "snd (R', changed')"
  proof (rule for_loop_reaches [OF loop, where ?k0.0 = j and I = "\<lambda>st. grows R (fst st)" and Q = snd])
    show "j \<in> set [0..<n]" using j by simp
    show "grows R (fst (R, changed))" by (simp add: grows_refl)
  next
    fix k t t'
    assume "grows R (fst t)" "composeStep mem ?u ?v k t = Inr t'"
    then show "grows R (fst t')"
      by (cases t; cases t') (auto dest!: composeStep_grows intro: grows_trans)
  next
    fix t t'
    assume g: "grows R (fst t)" and st: "composeStep mem ?u ?v j t = Inr t'"
    from g j have "fst t ! j = R ! j" by (simp add: grows_nth)
    with u have "unscanned (?u, ?v) (fst t ! j)" by simp
    with st show "snd t'"
      by (cases t; cases t') (auto dest: composeStep_unscanned)
  next
    fix k t t'
    assume "snd t" "composeStep mem ?u ?v k t = Inr t'"
    then show "snd t'"
      by (cases t; cases t') (auto dest: composeStep_flag)
  qed
  then show ?thesis by simp
qed

lemma closurePass_unscanned:
  assumes run: "closurePass mem R = Inr (R', changed')" and "\<not> all_scanned R"
  shows "changed'"
proof -
  from assms(2) obtain i j where ij: "i < length R" "j < length R" "unscanned (R ! i) (R ! j)"
    by (auto simp: all_scanned_def in_set_conv_nth)
  let ?n = "length R"
  from run have loop: "for_loop (composeRow mem ?n) [0..<?n] (R, False) = Inr (R', changed')"
    by (simp add: closurePass_def Let_def)
  have "snd (R', changed')"
  proof (rule for_loop_reaches [OF loop, where ?k0.0 = i and I = "\<lambda>st. grows R (fst st)" and Q = snd])
    show "i \<in> set [0..<?n]" using ij by simp
    show "grows R (fst (R, False))" by (simp add: grows_refl)
  next
    fix k t t'
    assume "grows R (fst t)" "composeRow mem ?n k t = Inr t'"
    then show "grows R (fst t')"
      by (cases t; cases t') (auto dest!: composeRow_grows intro: grows_trans)
  next
    fix t t'
    assume g: "grows R (fst t)" and st: "composeRow mem ?n i t = Inr t'"
    from g ij have "fst t ! i = R ! i" "fst t ! j = R ! j" "j < length (fst t)"
      using grows_length [OF g] by (simp_all add: grows_nth)
    with ij(3) have "unscanned (fst t ! i) (fst t ! j)" by simp
    with st ij(2) \<open>j < length (fst t)\<close> show "snd t'"
      by (cases t; cases t') (auto dest: composeRow_unscanned)
  next
    fix k t t'
    assume "snd t" "composeRow mem ?n k t = Inr t'"
    then show "snd t'"
      by (cases t; cases t') (auto dest: composeRow_flag)
  qed
  then show ?thesis by simp
qed

lemma all_scanned_subset: "set R \<subseteq> set R' \<Longrightarrow> all_scanned R' \<Longrightarrow> all_scanned R"
  by (auto simp: all_scanned_def)

lemma composeRow_distinct:
  assumes run: "composeRow mem n i (R, changed) = Inr (R', changed')"
    and n: "n \<le> length R" and row: "\<forall>j<n. \<not> unscanned (R ! i) (R ! j)" and d: "distinct R"
  shows "distinct R'"
proof -
  let ?u = "fst (R ! i)" and ?v = "snd (R ! i)"
  from run have loop:
    "for_loop (composeStep mem ?u ?v) [0..<n] (R, changed) = Inr (R', changed')"
    by (simp add: composeRow_def)
  have "grows R (fst (R', changed')) \<and> distinct (fst (R', changed'))"
  proof (rule for_loop_invariant [OF loop, where I = "\<lambda>st. grows R (fst st) \<and> distinct (fst st)"])
    show "grows R (fst (R, changed)) \<and> distinct (fst (R, changed))"
      using d by (simp add: grows_refl)
  next
    fix k t t'
    assume k: "k \<in> set [0..<n]" and t: "grows R (fst t) \<and> distinct (fst t)"
      and st: "composeStep mem ?u ?v k t = Inr t'"
    obtain Rc c Rc' c' where tt: "t = (Rc, c)" "t' = (Rc', c')" by (cases t; cases t')
    from k n t tt have "Rc ! k = R ! k" by (simp add: grows_nth)
    with row k have "\<not> unscanned (?u, ?v) (Rc ! k)" by simp
    with st tt t have "distinct Rc'" by (auto dest: composeStep_distinct)
    moreover from st tt t have "grows R Rc'"
      by (auto dest!: composeStep_grows intro: grows_trans)
    ultimately show "grows R (fst t') \<and> distinct (fst t')" using tt by simp
  qed
  then show ?thesis by simp
qed

lemma closurePass_distinct:
  assumes run: "closurePass mem R = Inr (R', changed')" and ok: "all_scanned R" and d: "distinct R"
  shows "distinct R'"
proof -
  let ?n = "length R"
  from run have loop: "for_loop (composeRow mem ?n) [0..<?n] (R, False) = Inr (R', changed')"
    by (simp add: closurePass_def Let_def)
  have "grows R (fst (R', changed')) \<and> distinct (fst (R', changed'))"
  proof (rule for_loop_invariant [OF loop, where I = "\<lambda>st. grows R (fst st) \<and> distinct (fst st)"])
    show "grows R (fst (R, False)) \<and> distinct (fst (R, False))"
      using d by (simp add: grows_refl)
  next
    fix k t t'
    assume k: "k \<in> set [0..<?n]" and t: "grows R (fst t) \<and> distinct (fst t)"
      and st: "composeRow mem ?n k t = Inr t'"
    obtain Rc c Rc' c' where tt: "t = (Rc, c)" "t' = (Rc', c')" by (cases t; cases t')
    from t tt have g: "grows R Rc" by simp
    have "\<not> unscanned (Rc ! k) (Rc ! j)" if "j < ?n" for j
    proof -
      from g k that have "Rc ! k = R ! k" "Rc ! j = R ! j" by (simp_all add: grows_nth)
      moreover from k that have "R ! k \<in> set R" "R ! j \<in> set R" by simp_all
      ultimately show ?thesis using ok by (simp add: all_scanned_def)
    qed
    with st tt t grows_length [OF g] have "distinct Rc'"
      by (auto dest: composeRow_distinct)
    moreover from st tt g have "grows R Rc'"
      by (auto dest!: composeRow_grows intro: grows_trans)
    ultimately show "grows R (fst t') \<and> distinct (fst t')" using tt by simp
  qed
  then show ?thesis by simp
qed

lemma composeRow_quiet:
  assumes "composeRow mem n i (R, changed) = Inr (R', False)"
  shows "R' = R \<and> \<not> changed \<and>
         (\<forall>j<n. composeStep mem (fst (R ! i)) (snd (R ! i)) j (R, False) = Inr (R, False))"
proof -
  let ?u = "fst (R ! i)" and ?v = "snd (R ! i)"
  from assms have loop:
    "for_loop (composeStep mem ?u ?v) [0..<n] (R, changed) = Inr (R', False)"
    by (simp add: composeRow_def)
  have "(R', False) = (R, changed) \<and>
        (\<forall>k \<in> set [0..<n]. composeStep mem ?u ?v k (R, changed) = Inr (R, changed))"
  proof (rule for_loop_quiet [OF loop, where quiet = "\<lambda>st. \<not> snd st"])
    show "\<not> snd (R', False)" by simp
  next
    fix k t t'
    assume "composeStep mem ?u ?v k t = Inr t'" "\<not> snd t'"
    then show "t' = t" by (cases t; cases t') (auto dest: composeStep_quiet)
  qed
  then show ?thesis by auto
qed

lemma closurePass_quiet:
  assumes "closurePass mem R = Inr (R', False)"
  shows "R' = R \<and>
         (\<forall>i<length R. \<forall>j<length R.
            composeStep mem (fst (R ! i)) (snd (R ! i)) j (R, False) = Inr (R, False))"
proof -
  let ?n = "length R"
  from assms have loop: "for_loop (composeRow mem ?n) [0..<?n] (R, False) = Inr (R', False)"
    by (simp add: closurePass_def Let_def)
  have "(R', False) = (R, False) \<and>
        (\<forall>k \<in> set [0..<?n]. composeRow mem ?n k (R, False) = Inr (R, False))"
  proof (rule for_loop_quiet [OF loop, where quiet = "\<lambda>st. \<not> snd st"])
    show "\<not> snd (R', False)" by simp
  next
    fix k t t'
    assume "composeRow mem ?n k t = Inr t'" "\<not> snd t'"
    then show "t' = t" by (cases t; cases t') (auto dest: composeRow_quiet)
  qed
  then have same: "R' = R" and rows: "\<forall>k<?n. composeRow mem ?n k (R, False) = Inr (R, False)"
    by simp_all
  have "composeStep mem (fst (R ! i)) (snd (R ! i)) j (R, False) = Inr (R, False)"
    if "i < ?n" "j < ?n" for i j
  proof -
    from rows that(1) have "composeRow mem ?n i (R, False) = Inr (R, False)" by simp
    from composeRow_quiet [OF this] that(2) show ?thesis by simp
  qed
  with same show ?thesis by simp
qed

lemma closurePass_fixed_closed:
  assumes fixed: "closurePass mem R = Inr (R, False)"
    and ab: "(a, b) \<in> set R" and bc: "(b, c) \<in> set R" and ac: "a \<noteq> c"
  shows "(a, c) \<in> set R"
proof -
  from ab obtain i where i: "i < length R" "R ! i = (a, b)" by (auto simp: in_set_conv_nth)
  from bc obtain j where j: "j < length R" "R ! j = (b, c)" by (auto simp: in_set_conv_nth)
  from closurePass_quiet [OF fixed] i j
  have "composeStep mem a b j (R, False) = Inr (R, False)" by fastforce
  from composeStep_closed [OF this] j ac show ?thesis by simp
qed

lemma closurePass_unlimited: "closurePass unlimited R \<noteq> Inl e"
proof
  assume "closurePass unlimited R = Inl e"
  then obtain i t where "composeRow unlimited (length R) i t = Inl e"
    by (auto simp: closurePass_def Let_def dest!: for_loop_failure)
  then obtain u v j t' where "composeStep unlimited u v j t' = Inl e"
    by (auto simp: composeRow_def Let_def dest!: for_loop_failure)
  then show False
    by (cases t') (auto simp: composeStep_def unlimited_def Let_def split: if_splits)
qed

lemma composeStep_present:
  "composeStep mem u v j (Rc, c) = Inr (Rc', c') \<Longrightarrow> Rc ! j = (v, w) \<Longrightarrow> u \<noteq> w \<Longrightarrow>
   (u, w) \<in> set Rc'"
  by (auto simp: composeStep_def scanPair_iff Let_def split: if_splits)

lemma composeRow_present:
  assumes run: "composeRow mem n i (Rc, c) = Inr (Rc', c')"
    and j: "j < n" "j < length R" and g: "grows R Rc"
    and i: "Rc ! i = (u, v)" and rj: "R ! j = (v, w)" and uw: "u \<noteq> w"
  shows "(u, w) \<in> set Rc'"
proof -
  from run i have loop: "for_loop (composeStep mem u v) [0..<n] (Rc, c) = Inr (Rc', c')"
    by (simp add: composeRow_def)
  have "(u, w) \<in> set (fst (Rc', c'))"
  proof (rule for_loop_reaches [OF loop, where ?k0.0 = j and I = "\<lambda>st. grows R (fst st)"
        and Q = "\<lambda>st. (u, w) \<in> set (fst st)"])
    show "j \<in> set [0..<n]" using j by simp
    show "grows R (fst (Rc, c))" using g by simp
  next
    fix k t t'
    assume "grows R (fst t)" "composeStep mem u v k t = Inr t'"
    then show "grows R (fst t')"
      by (cases t; cases t') (auto dest!: composeStep_grows intro: grows_trans)
  next
    fix t t'
    assume gt: "grows R (fst t)" and st: "composeStep mem u v j t = Inr t'"
    from gt j rj have "fst t ! j = (v, w)" by (simp add: grows_nth)
    with st uw show "(u, w) \<in> set (fst t')"
      by (cases t; cases t') (auto dest: composeStep_present)
  next
    fix k t t'
    assume "(u, w) \<in> set (fst t)" "composeStep mem u v k t = Inr t'"
    then show "(u, w) \<in> set (fst t')"
      by (cases t; cases t') (auto dest!: composeStep_grows grows_set)
  qed
  then show ?thesis by simp
qed

text \<open>
  What one pass achieves: when it ends, the array holds \<open>(u, w)\<close> for all pairs \<open>(u, v)\<close>
  and \<open>(v, w)\<close> with \<open>u \<noteq> w\<close> that were in it at the start.
\<close>

lemma closurePass_present:
  assumes run: "closurePass mem R = Inr (R', c')"
    and i: "i < length R" "R ! i = (u, v)" and j: "j < length R" "R ! j = (v, w)"
    and uw: "u \<noteq> w"
  shows "(u, w) \<in> set R'"
proof -
  let ?n = "length R"
  from run have loop: "for_loop (composeRow mem ?n) [0..<?n] (R, False) = Inr (R', c')"
    by (simp add: closurePass_def Let_def)
  have "(u, w) \<in> set (fst (R', c'))"
  proof (rule for_loop_reaches [OF loop, where ?k0.0 = i and I = "\<lambda>st. grows R (fst st)"
        and Q = "\<lambda>st. (u, w) \<in> set (fst st)"])
    show "i \<in> set [0..<?n]" using i by simp
    show "grows R (fst (R, False))" by (simp add: grows_refl)
  next
    fix k t t'
    assume "grows R (fst t)" "composeRow mem ?n k t = Inr t'"
    then show "grows R (fst t')"
      by (cases t; cases t') (auto dest!: composeRow_grows intro: grows_trans)
  next
    fix t t'
    assume gt: "grows R (fst t)" and st: "composeRow mem ?n i t = Inr t'"
    obtain Rt ct Rt' ct' where tt: "t = (Rt, ct)" "t' = (Rt', ct')" by (cases t; cases t')
    from gt i tt have "Rt ! i = (u, v)" by (simp add: grows_nth)
    with composeRow_present [of mem ?n i Rt ct Rt' ct' j R u v w] st tt gt j uw
    show "(u, w) \<in> set (fst t')" by simp
  next
    fix k t t'
    assume "(u, w) \<in> set (fst t)" "composeRow mem ?n k t = Inr t'"
    then show "(u, w) \<in> set (fst t')"
      by (cases t; cases t') (auto dest!: composeRow_grows grows_set)
  qed
  then show ?thesis by simp
qed

lemma for_loop_append:
  "for_loop body (xs @ ys) s =
     (case for_loop body xs s of Inl e \<Rightarrow> Inl e | Inr s' \<Rightarrow> for_loop body ys s')"
  by (induction xs arbitrary: s) (auto split: sum.splits)

lemma upt_split: "i < n \<Longrightarrow> [0..<n] = [0..<i] @ i # [Suc i..<n]"
  using upt_add_eq_append [of 0 i "n - i"] upt_conv_Cons [of i n] by simp

lemma for_loop_split:
  "i < n \<Longrightarrow>
   for_loop body [0..<n] s =
     (case for_loop body [0..<i] s of
        Inl e \<Rightarrow> Inl e
      | Inr s1 \<Rightarrow>
          (case body i s1 of Inl e \<Rightarrow> Inl e | Inr s2 \<Rightarrow> for_loop body [Suc i..<n] s2))"
  by (simp add: upt_split [of i n] for_loop_append split: sum.splits)

lemma steps_grow:
  assumes "for_loop (composeStep mem u v) ks st = Inr st'"
  shows "grows (fst st) (fst st')"
  by (rule for_loop_invariant [OF assms, where I = "\<lambda>t. grows (fst st) (fst t)"])
    (auto simp: grows_refl dest!: composeStep_grows intro: grows_trans)

lemma rows_grow:
  assumes "for_loop (composeRow mem n) ks st = Inr st'"
  shows "grows (fst st) (fst st')"
  by (rule for_loop_invariant [OF assms, where I = "\<lambda>t. grows (fst st) (fst t)"])
    (auto simp: grows_refl dest!: composeRow_grows intro: grows_trans)

lemma passBefore_grows:
  assumes "passBefore mem R i j = Inr (Rc, c)"
  shows "grows R Rc"
proof -
  from assms obtain st where rows: "for_loop (composeRow mem (length R)) [0..<i] (R, False) = Inr st"
    and steps: "for_loop (composeStep mem (fst (fst st ! i)) (snd (fst st ! i))) [0..<j] st = Inr (Rc, c)"
    by (auto simp: passBefore_def split: sum.splits)
  from rows_grow [OF rows] steps_grow [OF steps] show ?thesis
    by (auto intro: grows_trans)
qed

text \<open>
  The pass, cut at the step with the indices \<open>i\<close> and \<open>j\<close>: what comes before it, the
  step, and what comes after it.
\<close>

lemma closurePass_split:
  assumes i: "i < length R" and j: "j < length R"
  shows "closurePass mem R =
     (case passBefore mem R i j of
        Inl e \<Rightarrow> Inl e
      | Inr st \<Rightarrow>
          (case composeStep mem (fst (R ! i)) (snd (R ! i)) j st of
             Inl e \<Rightarrow> Inl e
           | Inr st' \<Rightarrow> passAfter mem (length R) i j (fst (R ! i)) (snd (R ! i)) st'))"
proof (cases "for_loop (composeRow mem (length R)) [0..<i] (R, False)")
  case (Inl e)
  with i show ?thesis
    by (simp add: closurePass_def Let_def passBefore_def for_loop_split [of i])
next
  case (Inr st0)
  from rows_grow [OF Inr] i have "fst st0 ! i = R ! i" by (simp add: grows_nth)
  with Inr i j show ?thesis
    by (simp add: closurePass_def Let_def passBefore_def passAfter_def composeRow_def
        for_loop_split [of i "length R" "composeRow mem (length R)"]
        for_loop_split [of j "length R" "composeStep mem (fst (R ! i)) (snd (R ! i))"]
        split: sum.splits)
qed

lemma composeStep_decides:
  assumes "Rc ! j = (v, w)" and "u \<noteq> v" and "v \<noteq> w"
  shows "composeStep mem u v j (Rc, c) =
           (if u \<noteq> w \<and> (u, w) \<notin> set Rc
            then if mem (2 * length Rc + 2) then Inr (Rc @ [(u, w)], True) else Inl AllocFailed
            else Inr (Rc, c))"
  using assms by (simp add: composeStep_def scanPair_iff Let_def)

section \<open>The loop of passes\<close>

lemma createTransClosure_induct [consumes 1, case_names last_pass next_pass]:
  assumes run: "createTransClosure mem R = Some (Inr Rf)"
    and base: "\<And>R. closurePass mem R = Inr (Rf, False) \<Longrightarrow> P R"
    and step: "\<And>R R'. closurePass mem R = Inr (R', True) \<Longrightarrow> P R' \<Longrightarrow> P R"
  shows "P R"
proof -
  have "createTransClosure m R = Some y \<Longrightarrow> m = mem \<longrightarrow> y = Inr Rf \<longrightarrow> P R" for m y
  proof (rule createTransClosure.raw_induct
      [where P = "\<lambda>m R y. m = mem \<longrightarrow> y = Inr Rf \<longrightarrow> P R"])
    fix f m R y
    assume IH: "\<And>m R y. f m R = Some y \<Longrightarrow> m = mem \<longrightarrow> y = Inr Rf \<longrightarrow> P R"
      and body: "(case closurePass m R of
                    Inl e \<Rightarrow> Some (Inl e)
                  | Inr (R', changed) \<Rightarrow> if changed then f m R' else Some (Inr R')) = Some y"
    show "m = mem \<longrightarrow> y = Inr Rf \<longrightarrow> P R"
    proof (intro impI)
      assume m: "m = mem" and y: "y = Inr Rf"
      show "P R"
      proof (cases "closurePass mem R")
        case (Inl e)
        with body m y show ?thesis by simp
      next
        case (Inr st)
        obtain R' changed where st: "st = (R', changed)" by (cases st)
        show ?thesis
        proof (cases changed)
          case True
          with body Inr st m have "f m R' = Some y" by simp
          from IH [OF this] m y have "P R'" by simp
          with Inr st True show ?thesis by (simp add: step)
        next
          case False
          with body Inr st m y have "R' = Rf" by simp
          with Inr st False show ?thesis by (simp add: base)
        qed
      qed
    qed
  qed simp
  with run show ?thesis by simp
qed

lemma createTransClosure_grows:
  assumes "createTransClosure mem R = Some (Inr Rf)"
  shows "grows R Rf"
  using assms
proof (induction rule: createTransClosure_induct)
  case (last_pass R)
  then show ?case by (rule closurePass_grows)
next
  case (next_pass R R')
  then show ?case by (blast intro: grows_trans closurePass_grows)
qed

lemma createTransClosure_all_scanned:
  assumes "createTransClosure mem R = Some (Inr Rf)"
  shows "all_scanned R"
  using assms
proof (induction rule: createTransClosure_induct)
  case (last_pass R)
  then show ?case using closurePass_unscanned by blast
next
  case (next_pass R R')
  from next_pass(1) have "set R \<subseteq> set R'"
    by (blast dest: closurePass_grows grows_set)
  then show ?case using next_pass(2) by (rule all_scanned_subset)
qed

lemma createTransClosure_fixed:
  assumes "createTransClosure mem R = Some (Inr Rf)"
  shows "closurePass mem Rf = Inr (Rf, False)"
  using assms
proof (induction rule: createTransClosure_induct)
  case (last_pass R)
  then show ?case using closurePass_quiet by fastforce
next
  case (next_pass R R')
  then show ?case by simp
qed

lemma createTransClosure_failure:
  "createTransClosure mem R = Some y \<Longrightarrow> y = Inl e \<longrightarrow> (\<exists>R'. closurePass mem R' = Inl e)"
proof (rule createTransClosure.raw_induct
    [where P = "\<lambda>m R y. y = Inl e \<longrightarrow> (\<exists>R'. closurePass m R' = Inl e)"])
  fix f m R y
  assume IH: "\<And>m R y. f m R = Some y \<Longrightarrow> y = Inl e \<longrightarrow> (\<exists>R'. closurePass m R' = Inl e)"
    and body: "(case closurePass m R of
                  Inl e \<Rightarrow> Some (Inl e)
                | Inr (R', changed) \<Rightarrow> if changed then f m R' else Some (Inr R')) = Some y"
  show "y = Inl e \<longrightarrow> (\<exists>R'. closurePass m R' = Inl e)"
  proof (cases "closurePass m R")
    case (Inl e')
    with body show ?thesis by auto
  next
    case (Inr st)
    obtain R' changed where st: "st = (R', changed)" by (cases st)
    show ?thesis
    proof (cases changed)
      case True
      with body Inr st have "f m R' = Some y" by simp
      from IH [OF this] show ?thesis .
    next
      case False
      with body Inr st show ?thesis by auto
    qed
  qed
qed simp

lemma no_self_pair_scanned: "no_self_pair R \<Longrightarrow> all_scanned R"
  by (auto simp: no_self_pair_def all_scanned_def unscanned_def)

lemma grows_no_self_pair: "grows R R' \<Longrightarrow> no_self_pair R \<Longrightarrow> no_self_pair R'"
  by (fastforce simp: grows_def no_self_pair_def)

lemma composeStep_progress:
  assumes step: "composeStep mem u v j (Rc, c) = Inr (Rc', c')"
    and scanned: "\<not> unscanned (u, v) (Rc ! j)"
    and V: "u \<in> V" "snd (Rc ! j) \<in> V" "set Rc \<subseteq> V \<times> V"
    and sub: "set R \<subseteq> set Rc" and c: "c \<longrightarrow> set R \<subset> set Rc"
  shows "set Rc' \<subseteq> V \<times> V \<and> (c' \<longrightarrow> set R \<subset> set Rc')"
proof -
  from composeStep_cases [OF step]
  consider "Rc' = Rc" "c' = c" | "Rc' = Rc @ [(u, snd (Rc ! j))]" "u \<noteq> snd (Rc ! j)" "fst (Rc ! j) = v"
    by blast
  then show ?thesis
  proof cases
    case 1
    with V c show ?thesis by simp
  next
    case 2
    with step scanned have "(u, snd (Rc ! j)) \<notin> set Rc"
      by (auto simp: composeStep_def unscanned_def scanPair_iff Let_def split: if_splits)
    with 2 V sub show ?thesis by auto
  qed
qed

lemma composeRow_progress:
  assumes run: "composeRow mem n i (Rc, c) = Inr (Rc', c')"
    and n: "n \<le> length R" "i < n" and g: "grows R Rc"
    and R: "no_self_pair R" "set R \<subseteq> V \<times> V"
    and Rc: "set Rc \<subseteq> V \<times> V" "c \<longrightarrow> set R \<subset> set Rc"
  shows "set Rc' \<subseteq> V \<times> V \<and> (c' \<longrightarrow> set R \<subset> set Rc')"
proof -
  let ?u = "fst (Rc ! i)" and ?v = "snd (Rc ! i)"
  let ?I = "\<lambda>st. grows R (fst st) \<and> set (fst st) \<subseteq> V \<times> V \<and> (snd st \<longrightarrow> set R \<subset> set (fst st))"
  from g n have i: "Rc ! i = R ! i" "R ! i \<in> set R" by (simp_all add: grows_nth)
  from run have loop:
    "for_loop (composeStep mem ?u ?v) [0..<n] (Rc, c) = Inr (Rc', c')"
    by (simp add: composeRow_def)
  have "?I (Rc', c')"
  proof (rule for_loop_invariant [OF loop, where I = ?I])
    show "?I (Rc, c)" using g Rc by simp
  next
    fix k t t'
    assume k: "k \<in> set [0..<n]" and t: "?I t" and st: "composeStep mem ?u ?v k t = Inr t'"
    obtain Rt ct Rt' ct' where tt: "t = (Rt, ct)" "t' = (Rt', ct')" by (cases t; cases t')
    from t tt have gt: "grows R Rt" by simp
    from gt k n have kk: "Rt ! k = R ! k" "R ! k \<in> set R" by (simp_all add: grows_nth)
    from R(1) i kk have "\<not> unscanned (?u, ?v) (Rt ! k)"
      using no_self_pair_scanned [OF R(1)] by (simp add: all_scanned_def)
    moreover from i R(2) have "?u \<in> V" by (metis SigmaD1 prod.collapse subsetD)
    moreover from kk R(2) have "snd (Rt ! k) \<in> V" by (metis SigmaD2 prod.collapse subsetD)
    moreover from gt have "set R \<subseteq> set Rt" by (rule grows_set)
    ultimately have "set Rt' \<subseteq> V \<times> V \<and> (ct' \<longrightarrow> set R \<subset> set Rt')"
      using st t tt by (intro composeStep_progress [of mem ?u ?v k Rt ct Rt' ct' V R]) simp_all
    moreover from st tt gt have "grows R Rt'"
      by (auto dest!: composeStep_grows intro: grows_trans)
    ultimately show "?I t'" using tt by simp
  qed
  then show ?thesis by simp
qed

lemma closurePass_progress:
  assumes run: "closurePass mem R = Inr (R', c')"
    and R: "no_self_pair R" "set R \<subseteq> V \<times> V"
  shows "set R' \<subseteq> V \<times> V \<and> (c' \<longrightarrow> set R \<subset> set R')"
proof -
  let ?n = "length R"
  let ?I = "\<lambda>st. grows R (fst st) \<and> set (fst st) \<subseteq> V \<times> V \<and> (snd st \<longrightarrow> set R \<subset> set (fst st))"
  from run have loop: "for_loop (composeRow mem ?n) [0..<?n] (R, False) = Inr (R', c')"
    by (simp add: closurePass_def Let_def)
  have "?I (R', c')"
  proof (rule for_loop_invariant [OF loop, where I = ?I])
    show "?I (R, False)" using R by (simp add: grows_refl)
  next
    fix k t t'
    assume k: "k \<in> set [0..<?n]" and t: "?I t" and st: "composeRow mem ?n k t = Inr t'"
    obtain Rt ct Rt' ct' where tt: "t = (Rt, ct)" "t' = (Rt', ct')" by (cases t; cases t')
    from t tt have gt: "grows R Rt" by simp
    from st tt have "composeRow mem ?n k (Rt, ct) = Inr (Rt', ct')" by simp
    from composeRow_progress [OF this _ _ gt R] k t tt
    have "set Rt' \<subseteq> V \<times> V \<and> (ct' \<longrightarrow> set R \<subset> set Rt')" by simp
    moreover from st tt gt have "grows R Rt'"
      by (auto dest!: composeRow_grows intro: grows_trans)
    ultimately show "?I t'" using tt by simp
  qed
  then show ?thesis by simp
qed

text \<open>
  On an array without a pair \<open>(a, a)\<close> the loop of passes ends: it returns an array, or
  \<^verbatim>\<open>NULL\<close> after a failed \<^verbatim>\<open>realloc\<close>. Every pass that sets \<^verbatim>\<open>changed\<close> adds a pair that
  was not in the array, and all pairs are made of the cities of the input.
\<close>

lemma createTransClosure_returns:
  assumes "no_self_pair E"
  shows "\<exists>y. createTransClosure mem E = Some y"
proof -
  define V where "V = fst ` set E \<union> snd ` set E"
  have fin: "finite (V \<times> V)" by (simp add: V_def)
  have "set E \<subseteq> V \<times> V" by (force simp: V_def)
  with assms show ?thesis
  proof (induction "card (V \<times> V - set E)" arbitrary: E rule: less_induct)
    case less
    show ?case
    proof (cases "closurePass mem E")
      case (Inl e)
      then show ?thesis by (subst createTransClosure.simps) simp
    next
      case (Inr st)
      obtain R' changed where st: "st = (R', changed)" by (cases st)
      from Inr st have pass: "closurePass mem E = Inr (R', changed)" by simp
      show ?thesis
      proof (cases changed)
        case False
        with pass show ?thesis by (subst createTransClosure.simps) simp
      next
        case True
        from closurePass_progress [OF pass less.prems] True
        have sub: "set R' \<subseteq> V \<times> V" and more: "set E \<subset> set R'" by simp_all
        from more sub have "V \<times> V - set R' \<subset> V \<times> V - set E" by blast
        with fin have "card (V \<times> V - set R') < card (V \<times> V - set E)"
          by (intro psubset_card_mono) simp_all
        moreover from pass less.prems(1) have "no_self_pair R'"
          by (blast dest: closurePass_grows grows_no_self_pair)
        ultimately have "\<exists>y. createTransClosure mem R' = Some y"
          using sub by (intro less.hyps)
        with pass True show ?thesis by (subst createTransClosure.simps) simp
      qed
    qed
  qed
qed

lemma grows_take_drop:
  "grows R R' \<longleftrightarrow> take (length R) R' = R \<and> (\<forall>p \<in> set (drop (length R) R'). fst p \<noteq> snd p)"
proof
  assume "grows R R'"
  then show "take (length R) R' = R \<and> (\<forall>p \<in> set (drop (length R) R'). fst p \<noteq> snd p)"
    by (auto simp: grows_def)
next
  assume r: "take (length R) R' = R \<and> (\<forall>p \<in> set (drop (length R) R'). fst p \<noteq> snd p)"
  have "R' = take (length R) R' @ drop (length R) R'" by simp
  with r have "R' = R @ drop (length R) R'" by simp
  with r show "grows R R'" unfolding grows_def by blast
qed

lemma grows_loops: "grows R R' \<Longrightarrow> (a, a) \<in> set R' \<longleftrightarrow> (a, a) \<in> set R"
  by (fastforce simp: grows_def)

section \<open>Properties of createTransClosure\<close>

text \<open>
  Claim C8. When \<open>createTransClosure\<close> returns an array, every pair of the array it was
  given is in it: the input is the initial segment of the result.
\<close>

theorem createTransClosure_superset:
  assumes "createTransClosure mem E = Some (Inr R)"
  shows "set E \<subseteq> set R \<and> take (length E) R = E"
  using createTransClosure_grows [OF assms] grows_set [of E R] grows_take_drop [of E R]
  by simp

theorem createTransClosure_superset_witness:
  "createTransClosure unlimited [(0, 1), (1, 2)] = Some (Inr [(0, 1), (1, 2), (0, 2)]) \<and>
   (set [(0, 1), (1, 2)] \<subseteq> set [(0, 1), (1, 2), (0, 2) :: pair] \<and>
    take (length [(0, 1), (1, 2) :: pair]) [(0, 1), (1, 2), (0, 2)] = [(0, 1), (1, 2) :: pair])"
proof -
  have run: "createTransClosure unlimited [(0, 1), (1, 2)] = Some (Inr [(0, 1), (1, 2), (0, 2)])"
    by code_simp
  show ?thesis
    by (rule conjI [OF run createTransClosure_superset [OF run]])
qed

text \<open>
  Claim C10. Every pair appended by a pass, and so every pair appended by
  \<open>createTransClosure\<close>, has a start city different from its target city. Hence a pair
  \<open>(a, a)\<close> is in the returned array exactly when it was in the input.
\<close>

theorem createTransClosure_no_new_loops:
  "(closurePass mem E = Inr (R', changed) \<longrightarrow>
      take (length E) R' = E \<and> (\<forall>p \<in> set (drop (length E) R'). fst p \<noteq> snd p)) \<and>
   (createTransClosure mem E = Some (Inr R) \<longrightarrow>
      take (length E) R = E \<and> (\<forall>p \<in> set (drop (length E) R). fst p \<noteq> snd p) \<and>
      (\<forall>a. (a, a) \<in> set R \<longleftrightarrow> (a, a) \<in> set E))"
proof -
  have "take (length E) R' = E \<and> (\<forall>p \<in> set (drop (length E) R'). fst p \<noteq> snd p)"
    if "closurePass mem E = Inr (R', changed)"
  proof -
    from that have "grows E R'" by (rule closurePass_grows)
    then show ?thesis by (simp add: grows_take_drop)
  qed
  moreover have "take (length E) R = E \<and> (\<forall>p \<in> set (drop (length E) R). fst p \<noteq> snd p) \<and>
      (\<forall>a. (a, a) \<in> set R \<longleftrightarrow> (a, a) \<in> set E)"
    if "createTransClosure mem E = Some (Inr R)"
  proof -
    from that have g: "grows E R" by (rule createTransClosure_grows)
    then show ?thesis using grows_loops [OF g] by (simp add: grows_take_drop)
  qed
  ultimately show ?thesis by blast
qed

theorem createTransClosure_no_new_loops_witness:
  "closurePass unlimited [(0, 1), (1, 2), (2, 0), (3, 3)] =
     Inr ([(0, 1), (1, 2), (2, 0), (3, 3), (0, 2), (1, 0), (2, 1)], True) \<and>
   createTransClosure unlimited [(0, 1), (1, 2), (2, 0), (3, 3)] =
     Some (Inr [(0, 1), (1, 2), (2, 0), (3, 3), (0, 2), (1, 0), (2, 1)]) \<and>
   drop (length [(0, 1), (1, 2), (2, 0), (3, 3) :: pair])
     [(0, 1), (1, 2), (2, 0), (3, 3), (0, 2), (1, 0), (2, 1)] = [(0, 2), (1, 0), (2, 1) :: pair] \<and>
   (\<forall>a. (a, a) \<in> set [(0, 1), (1, 2), (2, 0), (3, 3), (0, 2), (1, 0), (2, 1) :: pair] \<longleftrightarrow>
        (a, a) \<in> set [(0, 1), (1, 2), (2, 0), (3, 3) :: pair])"
proof -
  have pass: "closurePass unlimited [(0, 1), (1, 2), (2, 0), (3, 3)] =
     Inr ([(0, 1), (1, 2), (2, 0), (3, 3), (0, 2), (1, 0), (2, 1)], True)"
    by code_simp
  have run: "createTransClosure unlimited [(0, 1), (1, 2), (2, 0), (3, 3)] =
     Some (Inr [(0, 1), (1, 2), (2, 0), (3, 3), (0, 2), (1, 0), (2, 1)])"
    by code_simp
  have d: "drop (length [(0, 1), (1, 2), (2, 0), (3, 3) :: pair])
     [(0, 1), (1, 2), (2, 0), (3, 3), (0, 2), (1, 0), (2, 1)] = [(0, 2), (1, 0), (2, 1) :: pair]"
    by simp
  from createTransClosure_no_new_loops
    [of unlimited "[(0, 1), (1, 2), (2, 0), (3, 3)]" _ _ "[(0, 1), (1, 2), (2, 0), (3, 3), (0, 2), (1, 0), (2, 1)]"] run
  have "\<forall>a. (a, a) \<in> set [(0, 1), (1, 2), (2, 0), (3, 3), (0, 2), (1, 0), (2, 1) :: pair] \<longleftrightarrow>
        (a, a) \<in> set [(0, 1), (1, 2), (2, 0), (3, 3) :: pair]"
    by blast
  with pass run d show ?thesis by blast
qed

text \<open>
  Claim C3. When the input has no repeated pair and \<open>createTransClosure\<close> returns an
  array, the array has no repeated pair.
\<close>

theorem createTransClosure_distinct:
  assumes "createTransClosure mem E = Some (Inr R)" and "distinct E"
  shows "distinct R"
proof -
  from assms(1) have "all_scanned E \<and> (distinct E \<longrightarrow> distinct R)"
  proof (induction rule: createTransClosure_induct)
    case (last_pass R0)
    then show ?case using closurePass_unscanned closurePass_distinct by blast
  next
    case (next_pass R0 R')
    from next_pass(1) have "set R0 \<subseteq> set R'"
      by (blast dest: closurePass_grows grows_set)
    with next_pass(2) have "all_scanned R0" by (blast intro: all_scanned_subset)
    with next_pass closurePass_distinct show ?case by blast
  qed
  with assms(2) show ?thesis by simp
qed

theorem createTransClosure_distinct_witness:
  "createTransClosure unlimited [(0, 1), (1, 2), (2, 0)] =
     Some (Inr [(0, 1), (1, 2), (2, 0), (0, 2), (1, 0), (2, 1)]) \<and>
   distinct [(0, 1), (1, 2), (2, 0) :: pair] \<and>
   distinct [(0, 1), (1, 2), (2, 0), (0, 2), (1, 0), (2, 1) :: pair]"
proof -
  have run: "createTransClosure unlimited [(0, 1), (1, 2), (2, 0)] =
     Some (Inr [(0, 1), (1, 2), (2, 0), (0, 2), (1, 0), (2, 1)])"
    by code_simp
  have d: "distinct [(0, 1), (1, 2), (2, 0) :: pair]" by simp
  show ?thesis
    by (intro conjI run d createTransClosure_distinct [OF run d])
qed

text \<open>
  Claim C1, as amended. When \<open>createTransClosure\<close> returns an array that holds \<open>(a, b)\<close>
  and \<open>(b, c)\<close> with \<open>a \<noteq> c\<close>, the array holds \<open>(a, c)\<close>. The guard \<^verbatim>\<open>u != w\<close> keeps
  every derived pair \<open>(a, a)\<close> out, so the claim fails for \<open>a = c\<close>: the array returned
  for the two-city cycle holds \<open>(0, 1)\<close> and \<open>(1, 0)\<close> and not \<open>(0, 0)\<close>.
\<close>

theorem createTransClosure_transitive:
  assumes "createTransClosure mem E = Some (Inr R)"
    and "(a, b) \<in> set R" and "(b, c) \<in> set R" and "a \<noteq> c"
  shows "(a, c) \<in> set R"
  using createTransClosure_fixed [OF assms(1)] assms(2-4) by (rule closurePass_fixed_closed)

theorem createTransClosure_transitive_witness:
  "createTransClosure unlimited [(0, 1), (1, 2)] = Some (Inr [(0, 1), (1, 2), (0, 2)]) \<and>
   (0, 1) \<in> set [(0, 1), (1, 2), (0, 2) :: pair] \<and>
   (1, 2) \<in> set [(0, 1), (1, 2), (0, 2) :: pair] \<and>
   (0 :: city) \<noteq> 2 \<and>
   (0, 2) \<in> set [(0, 1), (1, 2), (0, 2) :: pair]"
proof -
  have run: "createTransClosure unlimited [(0, 1), (1, 2)] = Some (Inr [(0, 1), (1, 2), (0, 2)])"
    by code_simp
  have ab: "(0, 1) \<in> set [(0, 1), (1, 2), (0, 2) :: pair]" by simp
  have bc: "(1, 2) \<in> set [(0, 1), (1, 2), (0, 2) :: pair]" by simp
  have ac: "(0 :: city) \<noteq> 2" by simp
  show ?thesis
    by (intro conjI run ab bc ac createTransClosure_transitive [OF run ab bc ac])
qed

theorem createTransClosure_transitive_counterexample:
  "createTransClosure unlimited [(0, 1), (1, 0)] = Some (Inr [(0, 1), (1, 0)]) \<and>
   (0, 1) \<in> set [(0, 1), (1, 0) :: pair] \<and>
   (1, 0) \<in> set [(0, 1), (1, 0) :: pair] \<and>
   (0, 0) \<notin> set [(0, 1), (1, 0) :: pair]"
proof -
  have "createTransClosure unlimited [(0, 1), (1, 0)] = Some (Inr [(0, 1), (1, 0)])"
    by code_simp
  then show ?thesis by simp
qed

text \<open>
  Claim C2 fails on the code. On the input \<open>[(0, 0), (0, 1)]\<close>, the list of the table
  with the rows \<open>1 1\<close> and \<open>0 0\<close>, every pass appends
  \<open>(0, 1)\<close> again without the duplicate scan (the scan is skipped when \<^verbatim>\<open>u == y\<close>), so
  every pass sets \<^verbatim>\<open>changed\<close>: with an allocator that never fails the loop runs for
  ever, and with any allocator the function never returns an array.
\<close>

theorem createTransClosure_diverges:
  "createRList unlimited [[1, 1], [0, 0]] 2 = Inr [(0, 0), (0, 1)] \<and>
   createTransClosure unlimited [(0, 0), (0, 1)] = None \<and>
   (\<forall>mem R. createTransClosure mem [(0, 0), (0, 1)] \<noteq> Some (Inr R))"
proof -
  have list: "createRList unlimited [[1, 1], [0, 0]] 2 = Inr [(0, 0), (0, 1)]"
    by code_simp
  have bad: "\<not> all_scanned [(0, 0), (0, 1)]"
    by (simp add: all_scanned_def unscanned_def)
  have never: "createTransClosure mem [(0, 0), (0, 1)] \<noteq> Some (Inr R)" for mem R
    using createTransClosure_all_scanned [of mem "[(0, 0), (0, 1)]" R] bad by blast
  have stuck: "createTransClosure unlimited [(0, 0), (0, 1)] \<noteq> Some y" for y
  proof (cases y)
    case (Inl e)
    show ?thesis
    proof
      assume "createTransClosure unlimited [(0, 0), (0, 1)] = Some y"
      from createTransClosure_failure [OF this, of e] Inl closurePass_unlimited
      show False by blast
    qed
  next
    case (Inr R)
    with never show ?thesis by simp
  qed
  have "createTransClosure unlimited [(0, 0), (0, 1)] = None"
  proof (cases "createTransClosure unlimited [(0, 0), (0, 1)]")
    case None
    then show ?thesis .
  next
    case (Some y)
    with stuck [of y] show ?thesis by simp
  qed
  with list never show ?thesis by blast
qed

text \<open>
  Claim C4, as amended. Take the pair \<open>(u, v)\<close> at an index \<open>i\<close> and the pair \<open>(v, w)\<close> at an
  index \<open>j\<close> of the array a pass starts on, neither of which links a city to itself. A
  pass that runs to its end comes to the step for \<open>i\<close> and \<open>j\<close>. When the pass comes to
  it, with the current array \<open>Rc\<close> (the array at the start and the pairs appended
  since), it goes on from \<open>Rc\<close> with \<open>(u, w)\<close> appended and \<^verbatim>\<open>changed\<close> set exactly when
  \<open>u \<noteq> w\<close> and \<open>(u, w)\<close> is nowhere in \<open>Rc\<close> (and ends with \<^verbatim>\<open>NULL\<close> there when \<^verbatim>\<open>realloc\<close>
  fails); otherwise it goes on from \<open>Rc\<close> and the flag as they are. The claim as written
  fails: from \<open>(0, 1)\<close> and \<open>(1, 0)\<close> the pair \<open>(0, 0)\<close> is not in the array and the two pairs
  are not the same pair, yet the pass appends nothing, because of the guard
  \<^verbatim>\<open>u != w\<close>.
\<close>

theorem closurePass_appends:
  assumes "i < length R" and "j < length R"
    and "R ! i = (u, v)" and "R ! j = (v, w)" and "u \<noteq> v" and "v \<noteq> w"
  shows "(\<forall>R' changed'. closurePass mem R = Inr (R', changed') \<longrightarrow>
            (\<exists>Rc c. passBefore mem R i j = Inr (Rc, c))) \<and>
         (\<forall>Rc c. passBefore mem R i j = Inr (Rc, c) \<longrightarrow>
            take (length R) Rc = R \<and>
            closurePass mem R =
              (if u \<noteq> w \<and> (u, w) \<notin> set Rc
               then if mem (2 * length Rc + 2)
                    then passAfter mem (length R) i j u v (Rc @ [(u, w)], True)
                    else Inl AllocFailed
               else passAfter mem (length R) i j u v (Rc, c)))"
proof (intro conjI allI impI)
  fix R' changed'
  assume "closurePass mem R = Inr (R', changed')"
  with closurePass_split [OF assms(1,2), of mem]
  show "\<exists>Rc c. passBefore mem R i j = Inr (Rc, c)"
    by (cases "passBefore mem R i j") auto
next
  fix Rc c
  assume before: "passBefore mem R i j = Inr (Rc, c)"
  then have g: "grows R Rc" by (rule passBefore_grows)
  then show "take (length R) Rc = R" by (simp add: grows_take_drop)
  from g assms have "Rc ! j = (v, w)" by (simp add: grows_nth)
  from composeStep_decides [OF this assms(5,6), of mem c] before assms(3)
  show "closurePass mem R =
          (if u \<noteq> w \<and> (u, w) \<notin> set Rc
           then if mem (2 * length Rc + 2)
                then passAfter mem (length R) i j u v (Rc @ [(u, w)], True)
                else Inl AllocFailed
           else passAfter mem (length R) i j u v (Rc, c))"
    by (simp add: closurePass_split [OF assms(1,2)])
qed

theorem closurePass_appends_witness:
  "(1 :: nat) < length [(0, 1), (1, 2), (2, 3) :: pair] \<and>
   (2 :: nat) < length [(0, 1), (1, 2), (2, 3) :: pair] \<and>
   [(0, 1), (1, 2), (2, 3)] ! 1 = (1 :: city, 2 :: city) \<and>
   [(0, 1), (1, 2), (2, 3)] ! 2 = (2 :: city, 3 :: city) \<and>
   (1 :: city) \<noteq> 2 \<and> (2 :: city) \<noteq> 3 \<and>
   passBefore unlimited [(0, 1), (1, 2), (2, 3)] 1 2 = Inr ([(0, 1), (1, 2), (2, 3), (0, 2)], True) \<and>
   (1 :: city) \<noteq> 3 \<and> (1, 3) \<notin> set [(0, 1), (1, 2), (2, 3), (0, 2) :: pair] \<and>
   closurePass unlimited [(0, 1), (1, 2), (2, 3)] =
     passAfter unlimited (length [(0, 1), (1, 2), (2, 3) :: pair]) 1 2 1 2
       ([(0, 1), (1, 2), (2, 3), (0, 2)] @ [(1, 3)], True) \<and>
   closurePass unlimited [(0, 1), (1, 2), (2, 3)] =
     Inr ([(0, 1), (1, 2), (2, 3), (0, 2), (1, 3)], True)"
proof -
  have i: "(1 :: nat) < length [(0, 1), (1, 2), (2, 3) :: pair]"
    and j: "(2 :: nat) < length [(0, 1), (1, 2), (2, 3) :: pair]" by simp_all
  have ri: "[(0, 1), (1, 2), (2, 3)] ! 1 = (1 :: city, 2 :: city)"
    and rj: "[(0, 1), (1, 2), (2, 3)] ! 2 = (2 :: city, 3 :: city)" by simp_all
  have uv: "(1 :: city) \<noteq> 2" and vw: "(2 :: city) \<noteq> 3" by simp_all
  have before: "passBefore unlimited [(0, 1), (1, 2), (2, 3)] 1 2 =
      Inr ([(0, 1), (1, 2), (2, 3), (0, 2)], True)"
    by code_simp
  have new: "(1 :: city) \<noteq> 3" "(1, 3) \<notin> set [(0, 1), (1, 2), (2, 3), (0, 2) :: pair]"
    by simp_all
  have pass: "closurePass unlimited [(0, 1), (1, 2), (2, 3)] =
      Inr ([(0, 1), (1, 2), (2, 3), (0, 2), (1, 3)], True)"
    by code_simp
  let ?Rc = "[(0, 1), (1, 2), (2, 3), (0, 2)] :: pair list"
  from closurePass_appends [OF i j ri rj uv vw, of unlimited]
  have "passBefore unlimited [(0, 1), (1, 2), (2, 3)] 1 2 = Inr (?Rc, True) \<longrightarrow>
     take (length [(0, 1), (1, 2), (2, 3) :: pair]) ?Rc = [(0, 1), (1, 2), (2, 3)] \<and>
     closurePass unlimited [(0, 1), (1, 2), (2, 3)] =
       (if (1 :: city) \<noteq> 3 \<and> (1, 3) \<notin> set ?Rc
        then if unlimited (2 * length ?Rc + 2)
             then passAfter unlimited (length [(0, 1), (1, 2), (2, 3) :: pair]) 1 2 1 2
                    (?Rc @ [(1, 3)], True)
             else Inl AllocFailed
        else passAfter unlimited (length [(0, 1), (1, 2), (2, 3) :: pair]) 1 2 1 2 (?Rc, True))"
    by blast
  with before new
  have "closurePass unlimited [(0, 1), (1, 2), (2, 3)] =
     passAfter unlimited (length [(0, 1), (1, 2), (2, 3) :: pair]) 1 2 1 2
       ([(0, 1), (1, 2), (2, 3), (0, 2)] @ [(1, 3)], True)"
    by (simp add: unlimited_def)
  with i j ri rj uv vw before new pass show ?thesis by blast
qed

theorem closurePass_appends_counterexample:
  "[(0, 1), (1, 0)] ! 0 = (0 :: city, 1 :: city) \<and>
   [(0, 1), (1, 0)] ! 1 = (1 :: city, 0 :: city) \<and>
   passBefore unlimited [(0, 1), (1, 0)] 0 1 = Inr ([(0, 1), (1, 0)], False) \<and>
   (0, 0) \<notin> set [(0, 1), (1, 0) :: pair] \<and>
   \<not> ((0 :: city) = 1 \<and> (1 :: city) = 0) \<and>
   composeStep unlimited 0 1 1 ([(0, 1), (1, 0)], False) = Inr ([(0, 1), (1, 0)], False) \<and>
   closurePass unlimited [(0, 1), (1, 0)] = Inr ([(0, 1), (1, 0)], False)"
proof -
  have "passBefore unlimited [(0, 1), (1, 0)] 0 1 = Inr ([(0, 1), (1, 0)], False)"
    by code_simp
  moreover have "composeStep unlimited 0 1 1 ([(0, 1), (1, 0)], False) = Inr ([(0, 1), (1, 0)], False)"
    by code_simp
  moreover have "closurePass unlimited [(0, 1), (1, 0)] = Inr ([(0, 1), (1, 0)], False)"
    by code_simp
  ultimately show ?thesis by simp
qed

section \<open>Properties of findPath\<close>

lemma scanPath_fold:
  "n \<le> length P \<Longrightarrow>
   fold (\<lambda>j flag. if c = P ! j then True else flag) [0..<n] b = (b \<or> (\<exists>j<n. P ! j = c))"
proof (induction n)
  case 0
  then show ?case by simp
next
  case (Suc n)
  then show ?case by (auto simp: less_Suc_eq)
qed

lemma scanPath_iff: "scanPath P c \<longleftrightarrow> c \<in> set P"
  by (simp add: scanPath_def scanPath_fold in_set_conv_nth)

lemma successively_nth:
  "successively Q xs \<Longrightarrow> Suc i < length xs \<Longrightarrow> Q (xs ! i) (xs ! Suc i)"
proof (induction Q xs arbitrary: i rule: successively.induct)
  case (3 Q x y xs)
  then show ?case by (cases i) auto
qed simp_all

lemma all_scanned_out: "all_scanned R \<Longrightarrow> (a, a) \<in> set R \<Longrightarrow> (a, b) \<in> set R \<Longrightarrow> a = b"
  by (fastforce simp: all_scanned_def unscanned_def)

lemma all_scanned_in: "all_scanned R \<Longrightarrow> (a, b) \<in> set R \<Longrightarrow> (b, b) \<in> set R \<Longrightarrow> a = b"
  by (fastforce simp: all_scanned_def unscanned_def)

lemma firstHop_inv:
  assumes found: "(start, targetCity) \<in> set R"
    and hop: "firstHop mem R start targetCity = Inr s"
  shows "walk_inv R start targetCity s"
proof -
  from found obtain k where "k < length R" "fst (R ! k) = start"
    by (auto simp: in_set_conv_nth)
  then have "List.find (\<lambda>i. fst (R ! i) = start) [0..<length R] \<noteq> None"
    by (auto simp: find_None_iff)
  then obtain i where f: "List.find (\<lambda>i. fst (R ! i) = start) [0..<length R] = Some i"
    by blast
  then have i: "i < length R" "fst (R ! i) = start"
    by (auto simp: find_Some_iff)
  then have e: "(start, snd (R ! i)) \<in> set R"
    by (metis nth_mem prod.collapse)
  show ?thesis
  proof (cases "snd (R ! i) = targetCity")
    case True
    with hop f have "s = \<lparr>Path = [start, targetCity], startCity = targetCity, pathComplete = True\<rparr>"
      by (auto simp: firstHop_def Let_def split: if_splits)
    with found show ?thesis
      by (auto simp: walk_inv_def path_ok_def link_def)
  next
    case False
    with hop f have "s = \<lparr>Path = [start], startCity = snd (R ! i), pathComplete = False\<rparr>"
      by (auto simp: firstHop_def Let_def split: if_splits)
    moreover have "start \<noteq> snd (R ! i)" if "all_scanned R" "start \<noteq> targetCity"
      using all_scanned_out [OF that(1) _ found] e that(2) by auto
    ultimately show ?thesis using e
      by (auto simp: walk_inv_def link_def)
  qed
qed

lemma hopStep_inv:
  assumes i: "i < length R" and s: "walk_inv R start targetCity s" "\<not> pathComplete s"
    and hop: "hopStep mem R targetCity i s = Inr s'"
  shows "walk_inv R start targetCity s'"
proof (cases "fst (R ! i) = startCity s \<and> snd (R ! i) \<notin> set (Path s)")
  case False
  with hop have "s' = s"
    by (auto simp: hopStep_def scanPath_iff split: if_splits)
  with s show ?thesis by simp
next
  case True
  let ?c = "snd (R ! i)" and ?P = "Path s @ [startCity s]"
  from True i have e: "(startCity s, ?c) \<in> set R"
    by (metis nth_mem prod.collapse)
  from s have P: "Path s \<noteq> []" "hd (Path s) = start" "successively (link R) ?P"
    "all_scanned R \<and> start \<noteq> targetCity \<longrightarrow> distinct ?P"
    by (simp_all add: walk_inv_def)
  from P(1,3) have prev: "(last (Path s), startCity s) \<in> set R"
    by (simp add: successively_append_iff link_def)
  from P(3) e have chain: "successively (link R) (?P @ [?c])"
    by (simp add: successively_append_iff link_def)
  have dist: "all_scanned R \<and> start \<noteq> targetCity \<longrightarrow> distinct (?P @ [?c])"
  proof
    assume safe: "all_scanned R \<and> start \<noteq> targetCity"
    with P(4) have d: "distinct ?P" by simp
    from P(1) have "last (Path s) \<in> set (Path s)" by simp
    with d have away: "last (Path s) \<noteq> startCity s" by auto
    have "?c \<noteq> startCity s"
    proof
      assume "?c = startCity s"
      with e have "(startCity s, startCity s) \<in> set R" by simp
      from all_scanned_in [OF _ prev this] safe have "last (Path s) = startCity s" by simp
      with away show False by simp
    qed
    with d True show "distinct (?P @ [?c])" by simp
  qed
  from P(1,2) have hd: "hd (?P @ [?c]) = start" "hd ?P = start" by simp_all
  show ?thesis
  proof (cases "?c = targetCity")
    case c: True
    with hop True have "s' = \<lparr>Path = ?P @ [targetCity], startCity = ?c, pathComplete = True\<rparr>"
      by (auto simp: hopStep_def scanPath_iff Let_def split: if_splits)
    with chain dist hd c show ?thesis
      by (simp add: walk_inv_def path_ok_def)
  next
    case c: False
    with hop True have "s' = \<lparr>Path = ?P, startCity = ?c, pathComplete = False\<rparr>"
      by (auto simp: hopStep_def scanPath_iff Let_def split: if_splits)
    with chain dist hd show ?thesis
      by (simp add: walk_inv_def)
  qed
qed

lemma hopScan_inv:
  assumes "hopScan mem R targetCity s = Inr s'" and "walk_inv R start targetCity s"
  shows "walk_inv R start targetCity s'"
  using assms unfolding hopScan_def
  by (rule for_loop_invariant) (auto split: if_splits intro: hopStep_inv)

lemma walkLoop_induct [consumes 1, case_names complete scan]:
  assumes run: "walkLoop mem R targetCity s = Some (Inr p)"
    and base: "\<And>s. pathComplete s \<Longrightarrow> Path s = p \<Longrightarrow> P s"
    and step: "\<And>s s'. \<not> pathComplete s \<Longrightarrow> hopScan mem R targetCity s = Inr s' \<Longrightarrow> P s' \<Longrightarrow> P s"
  shows "P s"
proof -
  have "walkLoop m R' t s = Some y \<Longrightarrow> m = mem \<longrightarrow> R' = R \<longrightarrow> t = targetCity \<longrightarrow> y = Inr p \<longrightarrow> P s"
    for m R' t y
  proof (rule walkLoop.raw_induct
      [where P = "\<lambda>m R' t s y. m = mem \<longrightarrow> R' = R \<longrightarrow> t = targetCity \<longrightarrow> y = Inr p \<longrightarrow> P s"])
    fix f m R' t s y
    assume IH: "\<And>m R' t s y. f m R' t s = Some y \<Longrightarrow>
                  m = mem \<longrightarrow> R' = R \<longrightarrow> t = targetCity \<longrightarrow> y = Inr p \<longrightarrow> P s"
      and body: "(if pathComplete s then Some (Inr (Path s))
                  else case hopScan m R' t s of
                         Inl e \<Rightarrow> Some (Inl e)
                       | Inr s' \<Rightarrow> f m R' t s') = Some y"
    show "m = mem \<longrightarrow> R' = R \<longrightarrow> t = targetCity \<longrightarrow> y = Inr p \<longrightarrow> P s"
    proof (intro impI)
      assume eq: "m = mem" "R' = R" "t = targetCity" "y = Inr p"
      show "P s"
      proof (cases "pathComplete s")
        case True
        with body eq show ?thesis by (simp add: base)
      next
        case False
        show ?thesis
        proof (cases "hopScan mem R targetCity s")
          case (Inl e)
          with body eq False show ?thesis by simp
        next
          case (Inr s')
          with body eq False have "f m R' t s' = Some y" by simp
          from IH [OF this] eq have "P s'" by simp
          with False Inr show ?thesis by (rule step)
        qed
      qed
    qed
  qed simp
  with run show ?thesis by simp
qed

lemma walkLoop_path:
  assumes "walkLoop mem R targetCity s = Some (Inr p)"
  shows "walk_inv R start targetCity s \<longrightarrow> path_ok R start targetCity p"
  using assms
proof (induction rule: walkLoop_induct)
  case (complete s)
  then show ?case by (simp add: walk_inv_def)
next
  case (scan s s')
  then show ?case using hopScan_inv by blast
qed

lemma walkLoop_failure:
  "walkLoop mem R targetCity s = Some y \<Longrightarrow> y \<noteq> Inl NoPath"
proof (rule walkLoop.raw_induct [where P = "\<lambda>m R t s y. y \<noteq> Inl NoPath"])
  fix f m R' t s y
  assume IH: "\<And>m R' t s y. f m R' t s = Some y \<Longrightarrow> y \<noteq> Inl NoPath"
    and body: "(if pathComplete s then Some (Inr (Path s))
                else case hopScan m R' t s of
                       Inl e \<Rightarrow> Some (Inl e)
                     | Inr s' \<Rightarrow> f m R' t s') = Some y"
  show "y \<noteq> Inl NoPath"
  proof (cases "pathComplete s")
    case True
    with body show ?thesis by auto
  next
    case False
    show ?thesis
    proof (cases "hopScan m R' t s")
      case (Inl e)
      then obtain i u where "(if pathComplete u then Inr u else hopStep m R' t i u) = Inl e"
        unfolding hopScan_def by (blast dest: for_loop_failure)
      then have "e = AllocFailed"
        by (auto simp: hopStep_def Let_def split: if_splits)
      with body False Inl show ?thesis by auto
    next
      case (Inr s')
      with body False have "f m R' t s' = Some y" by simp
      then show ?thesis by (rule IH)
    qed
  qed
qed simp

lemma firstHop_failure: "firstHop mem R start targetCity = Inl e \<Longrightarrow> e = AllocFailed"
  by (auto simp: firstHop_def Let_def split: option.splits if_splits)

text \<open>
  Claim C7. \<open>findPath\<close> answers "No Path Exists!" exactly when the pair
  \<open>(start, targetCity)\<close> is not in the array; nothing but the membership of that one pair
  decides it.
\<close>

theorem findPath_unreachable:
  "findPath mem R start targetCity = Some (Inl NoPath) \<longleftrightarrow> (start, targetCity) \<notin> set R"
proof (cases "(start, targetCity) \<in> set R")
  case False
  then show ?thesis by (simp add: findPath_def scanPair_iff)
next
  case True
  have "findPath mem R start targetCity \<noteq> Some (Inl NoPath)"
  proof (cases "firstHop mem R start targetCity")
    case (Inl e)
    with True firstHop_failure [OF Inl] show ?thesis
      by (simp add: findPath_def scanPair_iff)
  next
    case (Inr s)
    with True have "findPath mem R start targetCity = walkLoop mem R targetCity s"
      by (simp add: findPath_def scanPair_iff)
    then show ?thesis using walkLoop_failure by force
  qed
  with True show ?thesis by simp
qed

theorem findPath_unreachable_witness:
  "(0, 1) \<notin> set ([] :: pair list) \<and> findPath unlimited [] 0 1 = Some (Inl NoPath) \<and>
   (0, 2) \<in> set [(0, 1), (1, 2), (0, 2) :: pair] \<and>
   findPath unlimited [(0, 1), (1, 2), (0, 2)] 0 2 \<noteq> Some (Inl NoPath)"
proof -
  have a: "(0, 1) \<notin> set ([] :: pair list)" by simp
  have b: "(0, 2) \<in> set [(0, 1), (1, 2), (0, 2) :: pair]" by simp
  have c: "findPath unlimited [] 0 1 = Some (Inl NoPath)"
    by (rule iffD2 [OF findPath_unreachable a])
  have d: "findPath unlimited [(0, 1), (1, 2), (0, 2)] 0 2 \<noteq> Some (Inl NoPath)"
    using findPath_unreachable [of unlimited "[(0, 1), (1, 2), (0, 2)]" 0 2] b by blast
  from a c b d show ?thesis by (intro conjI)
qed

lemma createTransClosure_result_scanned:
  assumes "createTransClosure mem E = Some (Inr R)"
  shows "all_scanned R"
  using createTransClosure_fixed [OF assms] closurePass_unscanned by blast

text \<open>
  Claim C5, as amended. A path returned by \<open>findPath\<close> starts with the start city, ends
  with the target city, and each of its steps is a pair of the array; when the start
  city is not the target city and the array is one that \<open>createTransClosure\<close> returns (or
  any other array in which no pair is composed with a pair \<open>(a, a)\<close>), no city occurs
  twice in it. The claim as written fails on the array \<open>[(0, 0)]\<close>, the closure of the
  table with the rows \<open>1 0\<close> and \<open>0 0\<close>: the answer to the query from 0 to 0 is the path
  \<open>[0, 0]\<close>.
\<close>

theorem findPath_path:
  assumes "findPath mem R start targetCity = Some (Inr p)"
  shows "p \<noteq> [] \<and> hd p = start \<and> last p = targetCity \<and>
         (\<forall>i. Suc i < length p \<longrightarrow> (p ! i, p ! Suc i) \<in> set R) \<and>
         (start \<noteq> targetCity \<longrightarrow> createTransClosure mem' E = Some (Inr R) \<longrightarrow> distinct p) \<and>
         (start \<noteq> targetCity \<longrightarrow> all_scanned R \<longrightarrow> distinct p) \<and>
         ((\<forall>a. (a, a) \<notin> set R) \<longrightarrow> distinct p)"
proof -
  from assms have found: "(start, targetCity) \<in> set R"
    by (auto simp: findPath_def scanPair_iff split: if_splits)
  with assms obtain s where hop: "firstHop mem R start targetCity = Inr s"
    and loop: "walkLoop mem R targetCity s = Some (Inr p)"
    by (auto simp: findPath_def scanPair_iff split: sum.splits)
  from firstHop_inv [OF found hop] walkLoop_path [OF loop]
  have ok: "path_ok R start targetCity p" by blast
  then have "successively (link R) p" by (simp add: path_ok_def)
  then have "\<forall>i. Suc i < length p \<longrightarrow> (p ! i, p ! Suc i) \<in> set R"
    using successively_nth [of "link R" p] by (simp add: link_def)
  moreover have "all_scanned R" if "createTransClosure mem' E = Some (Inr R)"
    using that by (rule createTransClosure_result_scanned)
  moreover have "all_scanned R \<and> start \<noteq> targetCity" if "\<forall>a. (a, a) \<notin> set R"
  proof -
    from that have "no_self_pair R" by (fastforce simp: no_self_pair_def)
    then have "all_scanned R" by (rule no_self_pair_scanned)
    moreover from that found have "start \<noteq> targetCity" by auto
    ultimately show ?thesis by simp
  qed
  ultimately show ?thesis using ok by (auto simp: path_ok_def)
qed

theorem findPath_path_witness:
  "createTransClosure unlimited [(3, 3), (0, 1), (1, 2)] =
     Some (Inr [(3, 3), (0, 1), (1, 2), (0, 2)]) \<and>
   findPath unlimited [(3, 3), (0, 1), (1, 2), (0, 2)] 0 2 = Some (Inr [0, 1, 2]) \<and>
   (0 :: city) \<noteq> 2 \<and>
   hd [0, 1, 2 :: city] = 0 \<and> last [0, 1, 2 :: city] = 2 \<and>
   ([0, 1, 2 :: city] ! 0, [0, 1, 2 :: city] ! 1) \<in> set [(3, 3), (0, 1), (1, 2), (0, 2)] \<and>
   ([0, 1, 2 :: city] ! 1, [0, 1, 2 :: city] ! 2) \<in> set [(3, 3), (0, 1), (1, 2), (0, 2)] \<and>
   distinct [0, 1, 2 :: city]"
proof -
  have closure: "createTransClosure unlimited [(3, 3), (0, 1), (1, 2)] =
     Some (Inr [(3, 3), (0, 1), (1, 2), (0, 2)])"
    by code_simp
  have run: "findPath unlimited [(3, 3), (0, 1), (1, 2), (0, 2)] 0 2 = Some (Inr [0, 1, 2])"
    by code_simp
  have differ: "(0 :: city) \<noteq> 2" by simp
  from findPath_path [OF run, of unlimited "[(3, 3), (0, 1), (1, 2)]"] closure differ
  have "distinct [0, 1, 2 :: city]"
    by blast
  with closure run show ?thesis by simp
qed

theorem findPath_path_counterexample:
  "createRList unlimited [[1, 0], [0, 0]] 2 = Inr [(0, 0)] \<and>
   createTransClosure unlimited [(0, 0)] = Some (Inr [(0, 0)]) \<and>
   findPath unlimited [(0, 0)] 0 0 = Some (Inr [0, 0]) \<and> \<not> distinct [0, 0 :: city]"
proof -
  have "createRList unlimited [[1, 0], [0, 0]] 2 = Inr [(0, 0)]"
    by code_simp
  moreover have "createTransClosure unlimited [(0, 0)] = Some (Inr [(0, 0)])"
    by code_simp
  moreover have "findPath unlimited [(0, 0)] 0 0 = Some (Inr [0, 0])"
    by code_simp
  ultimately show ?thesis by simp
qed

text \<open>
  Claim C6 fails on the code. The array \<open>[(0, 1), (0, 2)]\<close> is the list of the table with
  the two entries \<open>0 \<rightarrow> 1\<close> and \<open>0 \<rightarrow> 2\<close>, and \<open>createTransClosure\<close> returns it as it is. On the
  query from 0 to 2 the pair \<open>(0, 2)\<close> is found, the first hop goes to city 1, and no pair
  starts at city 1: every run of the scan leaves the walk where it was, and
  \<^verbatim>\<open>while(!pathComplete)\<close> never ends.
\<close>

theorem findPath_diverges:
  "createRList unlimited [[0, 1, 1], [0, 0, 0], [0, 0, 0]] 3 = Inr [(0, 1), (0, 2)] \<and>
   createTransClosure unlimited [(0, 1), (0, 2)] = Some (Inr [(0, 1), (0, 2)]) \<and>
   (0, 2) \<in> set [(0, 1), (0, 2) :: pair] \<and>
   findPath unlimited [(0, 1), (0, 2)] 0 2 = None"
proof -
  let ?R = "[(0, 1), (0, 2)] :: pair list"
  let ?s = "\<lparr>Path = [0], startCity = 1, pathComplete = False\<rparr>"
  have list: "createRList unlimited [[0, 1, 1], [0, 0, 0], [0, 0, 0]] 3 = Inr ?R"
    by code_simp
  have closure: "createTransClosure unlimited ?R = Some (Inr ?R)"
    by code_simp
  have hop: "firstHop unlimited ?R 0 2 = Inr ?s"
    by code_simp
  have scan: "hopScan unlimited ?R 2 ?s = Inr ?s"
    by code_simp
  have stuck: "walkLoop m R t s = Some y \<Longrightarrow>
               \<not> (m = unlimited \<and> R = ?R \<and> t = 2 \<and> s = ?s)" for m R t s y
  proof (rule walkLoop.raw_induct
      [where P = "\<lambda>m R t s y. \<not> (m = unlimited \<and> R = ?R \<and> t = 2 \<and> s = ?s)"])
    fix f m R t s y
    assume IH: "\<And>m R t s y. f m R t s = Some y \<Longrightarrow>
                  \<not> (m = unlimited \<and> R = ?R \<and> t = 2 \<and> s = ?s)"
      and body: "(if pathComplete s then Some (Inr (Path s))
                  else case hopScan m R t s of
                         Inl e \<Rightarrow> Some (Inl e)
                       | Inr s' \<Rightarrow> f m R t s') = Some y"
    show "\<not> (m = unlimited \<and> R = ?R \<and> t = 2 \<and> s = ?s)"
    proof
      assume eq: "m = unlimited \<and> R = ?R \<and> t = 2 \<and> s = ?s"
      with body scan have "f m R t s = Some y" by simp
      from IH [OF this] eq show False by simp
    qed
  qed simp
  have "walkLoop unlimited ?R 2 ?s = None"
  proof (cases "walkLoop unlimited ?R 2 ?s")
    case None
    then show ?thesis .
  next
    case (Some y)
    from stuck [OF this] show ?thesis by simp
  qed
  with hop have "findPath unlimited ?R 0 2 = None"
    by (simp add: findPath_def scanPair_iff)
  with list closure show ?thesis by simp
qed

section \<open>Properties of createRList\<close>

lemma writePair_loop:
  "2 * length written \<le> capacity \<Longrightarrow>
   for_loop (writePair A capacity i) ks written =
     (if 2 * (length written + length (filter (\<lambda>j. A ! i ! j = 1) ks)) \<le> capacity
      then Inr (written @ map (\<lambda>j. (int i, int j)) (filter (\<lambda>j. A ! i ! j = 1) ks))
      else Inl OutOfBounds)"
proof (induction ks arbitrary: written)
  case Nil
  then show ?case by simp
next
  case (Cons k ks)
  show ?case
  proof (cases "A ! i ! k = 1")
    case False
    with Cons show ?thesis by (simp add: writePair_def)
  next
    case True
    show ?thesis
    proof (cases "2 * length written + 1 < capacity")
      case fits: True
      with True have "writePair A capacity i k written = Inr (written @ [(int i, int k)])"
        by (simp add: writePair_def)
      with True fits show ?thesis by (simp add: Cons.IH)
    next
      case False
      with True have "writePair A capacity i k written = Inl OutOfBounds"
        by (simp add: writePair_def)
      with True False Cons.prems show ?thesis by simp
    qed
  qed
qed

lemma writePair_rows:
  "2 * length written \<le> capacity \<Longrightarrow>
   for_loop (\<lambda>i. for_loop (writePair A capacity i) [0..<N]) ks written =
     (if 2 * (length written + length (concat (map (rowPairs A N) ks))) \<le> capacity
      then Inr (written @ concat (map (rowPairs A N) ks))
      else Inl OutOfBounds)"
proof (induction ks arbitrary: written)
  case Nil
  then show ?case by simp
next
  case (Cons k ks)
  show ?case
  proof (cases "2 * (length written + length (rowPairs A N k)) \<le> capacity")
    case True
    with Cons.prems
    have "for_loop (writePair A capacity k) [0..<N] written = Inr (written @ rowPairs A N k)"
      by (simp add: writePair_loop rowPairs_def)
    with True show ?thesis by (simp add: Cons.IH add.assoc)
  next
    case False
    with Cons.prems
    have "for_loop (writePair A capacity k) [0..<N] written = Inl OutOfBounds"
      by (simp add: writePair_loop rowPairs_def)
    with False show ?thesis by simp
  qed
qed

lemma createRList_eq:
  "createRList mem A N =
     (if \<not> mem (2 * (N * N - N)) then Inl AllocFailed
      else if N * N - N < length (tablePairs A N) then Inl OutOfBounds
      else if \<not> mem (2 * length (tablePairs A N)) then Inl AllocFailed
      else Inr (tablePairs A N))"
  by (simp add: createRList_def writePair_rows tablePairs_def Let_def)

lemma length_concat_bound:
  "(\<And>x. x \<in> set xs \<Longrightarrow> length (f x) \<le> c) \<Longrightarrow> length (concat (map f xs)) \<le> length xs * c"
proof (induction xs)
  case Nil
  then show ?case by simp
next
  case (Cons x xs)
  then have "length (f x) \<le> c" "length (concat (map f xs)) \<le> length xs * c"
    by simp_all
  then show ?case by simp
qed

lemma tablePairs_bound:
  assumes "\<And>i. i < N \<Longrightarrow> A ! i ! i \<noteq> 1"
  shows "length (tablePairs A N) \<le> N * N - N"
proof -
  have "length (rowPairs A N i) \<le> N - 1" if "i \<in> set [0..<N]" for i
  proof -
    from that assms have "i \<in> set [0..<N]" "\<not> A ! i ! i = 1" by simp_all
    then have "length (filter (\<lambda>j. A ! i ! j = 1) [0..<N]) < length [0..<N]"
      by (rule length_filter_less)
    then show ?thesis by (simp add: rowPairs_def)
  qed
  then have "length (tablePairs A N) \<le> length [0..<N] * (N - 1)"
    unfolding tablePairs_def by (rule length_concat_bound)
  then show ?thesis by (simp add: diff_mult_distrib2)
qed

text \<open>
  Without a \<open>1\<close> on the diagonal the block is large enough, and \<open>createRList\<close> returns the
  pairs of the entries equal to 1 in the order of the rows.
\<close>

lemma createRList_zero_diagonal:
  assumes "\<And>i. i < N \<Longrightarrow> A ! i ! i \<noteq> 1"
    and "mem (2 * (N * N - N))" and "mem (2 * length (tablePairs A N))"
  shows "createRList mem A N = Inr (tablePairs A N)"
  using tablePairs_bound [of N A] assms by (simp add: createRList_eq)

text \<open>
  Claim C9 fails on the code. The block holds \<open>N * N - N\<close> pairs; a table with more
  entries equal to 1 makes the loop write past its end. For the table of size 2 with
  four entries equal to 1, the third pair is written to the cells 4 and 5 of a block of
  4 cells.
\<close>

theorem createRList_overrun:
  "createRList unlimited [[1, 1], [1, 1]] 2 = Inl OutOfBounds \<and>
   tablePairs [[1, 1], [1, 1]] 2 = [(0, 0), (0, 1), (1, 0), (1, 1)]"
  by code_simp

end
